theory Spec2Isabelle
  imports Complex_Main "HOL-Library.Word"
begin

section \<open>Conventions\<close>

text \<open>
  The firmware is C++ for a 32-bit ESP32.  Samples are \<open>int16_t\<close>, the I2S driver hands
  out \<open>int32_t\<close>, \<open>millis()\<close> is an \<open>unsigned long\<close> of 32 bits whose differences wrap
  around.  These are words of the stated width; \<open>sint\<close> reads a sample as a signed number.

  Variables of type \<open>float\<close> are modelled as real numbers: the rounding of single
  precision arithmetic is not modelled.  Every function receives the clock as one reading
  \<open>now\<close> per activation, and the results of driver calls (I2S, SD card, WiFi, HTTP) as
  explicit arguments.
\<close>

type_synonym int16 = "16 word"
type_synonym int32 = "32 word"
type_synonym uint32 = "32 word"
type_synonym millis = "32 word"

text \<open>The macro \<open>MAX(a, b) ((a) > (b) ? (a) : (b))\<close> of config.h.\<close>

definition MAX_macro :: "real \<Rightarrow> real \<Rightarrow> real" where
  "MAX_macro a b = (if a > b then a else b)"


section \<open>voice_detection.cpp\<close>

definition VAD_SAMPLE_WINDOW :: nat where "VAD_SAMPLE_WINDOW = 256"
definition VAD_NOISE_FLOOR :: real where "VAD_NOISE_FLOOR = 100"
definition VAD_SENSITIVITY :: real where "VAD_SENSITIVITY = 2.0"

text \<open>The file's static variables.\<close>

record vd_state =
  noiseFloor :: real
  currentAudioLevel :: real
  vadBuffer :: "int16 list"
  vadInitialized :: bool
  lastNoiseUpdate :: millis
  runningAverage :: real
  sampleCount :: int

text \<open>Their initial values: the static initialisers of the file.\<close>

definition vd_statics :: vd_state where
  "vd_statics = \<lparr> noiseFloor = VAD_NOISE_FLOOR, currentAudioLevel = 0,
     vadBuffer = replicate VAD_SAMPLE_WINDOW 0, vadInitialized = False,
     lastNoiseUpdate = 0, runningAverage = 0, sampleCount = 0 \<rparr>"

text \<open>
  What can go wrong in the arithmetic of \<open>calculateRMS\<close>: reading \<open>samples[i]\<close> past the
  end of the buffer, and dividing by a zero count.
\<close>

datatype fault = OutOfBounds | DivisionByZero

text \<open>The loop \<open>for (i = 0; i < count; i++) sum += sample * sample\<close>, from index \<open>i\<close>
  (the accumulator \<open>sum\<close> is \<open>sum_f\<close> here).\<close>

function rms_sum :: "int16 list \<Rightarrow> int \<Rightarrow> int \<Rightarrow> real \<Rightarrow> fault + real" where
  "rms_sum samples count i sum_f =
     (if i < count then
        (if 0 \<le> i \<and> nat i < length samples then
           (let sample = real_of_int (sint (samples ! nat i))
            in rms_sum samples count (i + 1) (sum_f + sample * sample))
         else Inl OutOfBounds)
      else Inr sum_f)"
  by pat_completeness auto
termination
  by (relation "measure (\<lambda>(samples, count, i, sum_f). nat (count - i))") auto

declare rms_sum.simps [simp del]

definition checked_div :: "real \<Rightarrow> int \<Rightarrow> fault + real" where
  "checked_div x n = (if n = 0 then Inl DivisionByZero else Inr (x / real_of_int n))"

definition calculateRMS :: "int16 list \<Rightarrow> int \<Rightarrow> fault + real" where
  "calculateRMS samples count =
     (if count \<le> 0 then Inr 0.0
      else case rms_sum samples count 0 0.0 of
             Inl e \<Rightarrow> Inl e
           | Inr sum_f \<Rightarrow> (case checked_div sum_f count of
                          Inl e \<Rightarrow> Inl e
                        | Inr q \<Rightarrow> Inr (sqrt q)))"

text \<open>The loop of \<open>calculateZeroCrossingRate\<close>, from index \<open>i\<close>.\<close>

function zcr_count :: "int16 list \<Rightarrow> int \<Rightarrow> int \<Rightarrow> int \<Rightarrow> fault + int" where
  "zcr_count samples count i crossings =
     (if i < count then
        (if 1 \<le> i \<and> nat i < length samples then
           (let prev = sint (samples ! nat (i - 1)); cur = sint (samples ! nat i)
            in zcr_count samples count (i + 1)
                 (if (prev \<ge> 0 \<and> cur < 0) \<or> (prev < 0 \<and> cur \<ge> 0)
                  then crossings + 1 else crossings))
         else Inl OutOfBounds)
      else Inr crossings)"
  by pat_completeness auto
termination
  by (relation "measure (\<lambda>(samples, count, i, crossings). nat (count - i))") auto

declare zcr_count.simps [simp del]

definition calculateZeroCrossingRate :: "int16 list \<Rightarrow> int \<Rightarrow> fault + real" where
  "calculateZeroCrossingRate samples count =
     (if count \<le> 1 then Inr 0.0
      else case zcr_count samples count 1 0 of
             Inl e \<Rightarrow> Inl e
           | Inr crossings \<Rightarrow> checked_div (real_of_int crossings) (count - 1))"

definition updateNoiseFloor :: "millis \<Rightarrow> vd_state \<Rightarrow> vd_state" where
  "updateNoiseFloor now s =
     (if now - lastNoiseUpdate s < 100 then s
      else
        let ra = (runningAverage s * 0.95) + (currentAudioLevel s * 0.05);
            nf = (if currentAudioLevel s < noiseFloor s * 1.5
                  then (noiseFloor s * 0.99) + (currentAudioLevel s * 0.01)
                  else noiseFloor s)
        in s\<lparr> runningAverage := ra,
              noiseFloor := MAX_macro nf VAD_NOISE_FLOOR,
              lastNoiseUpdate := now,
              sampleCount := sampleCount s + 1 \<rparr>)"

text \<open>
  One call of \<open>i2s_read(I2S_PORT, vadBuffer, sizeof(vadBuffer), &bytesRead, ...)\<close>: whether
  it returned \<open>ESP_OK\<close>, and the samples it delivered.  The driver writes at most
  \<open>sizeof(vadBuffer)\<close> bytes, so at most \<open>VAD_SAMPLE_WINDOW\<close> samples are taken; they
  overwrite the front of the buffer.
\<close>

record i2s_read_result =
  esp_ok :: bool
  delivered :: "int16 list"

definition i2s_samples :: "i2s_read_result \<Rightarrow> int16 list" where
  "i2s_samples r = take VAD_SAMPLE_WINDOW (delivered r)"

definition i2s_store :: "i2s_read_result \<Rightarrow> int16 list \<Rightarrow> int16 list" where
  "i2s_store r buf = i2s_samples r @ drop (length (i2s_samples r)) buf"

definition detectVoiceActivity ::
  "millis \<Rightarrow> i2s_read_result \<Rightarrow> vd_state \<Rightarrow> fault + (bool \<times> vd_state)" where
  "detectVoiceActivity now r s =
     (if \<not> vadInitialized s then Inr (False, s)
      else
        let s1 = s\<lparr> vadBuffer := i2s_store r (vadBuffer s) \<rparr>;
            n = int (length (i2s_samples r))
        in if \<not> esp_ok r \<or> n = 0 then Inr (False, s1)
           else case calculateRMS (vadBuffer s1) n of
                  Inl e \<Rightarrow> Inl e
                | Inr rms \<Rightarrow>
                   (case calculateZeroCrossingRate (vadBuffer s1) n of
                      Inl e \<Rightarrow> Inl e
                    | Inr zcr \<Rightarrow>
                       let s2 = updateNoiseFloor now (s1\<lparr> currentAudioLevel := rms \<rparr>);
                           threshold = noiseFloor s2 * VAD_SENSITIVITY
                       in Inr ((rms > threshold) \<and> (zcr > 0.1) \<and> (zcr < 0.8), s2)))"

text \<open>
  \<open>calibrateVAD\<close>: thirty reads, \<open>reads i\<close> being the result of the \<open>i\<close>-th; the RMS of
  every successful read is stored in \<open>samples[sampleIndex++]\<close>, here the list \<open>acc\<close>.
\<close>

fun calibrate_loop ::
  "(nat \<Rightarrow> i2s_read_result) \<Rightarrow> nat list \<Rightarrow> int16 list \<Rightarrow> real list
     \<Rightarrow> fault + (int16 list \<times> real list)" where
  "calibrate_loop reads [] buf acc = Inr (buf, acc)"
| "calibrate_loop reads (i # is) buf acc =
     (let r = reads i; buf1 = i2s_store r buf; count = int (length (i2s_samples r))
      in if esp_ok r \<and> count > 0 then
           (case calculateRMS buf1 count of
              Inl e \<Rightarrow> Inl e
            | Inr rms \<Rightarrow> calibrate_loop reads is buf1 (acc @ [rms]))
         else calibrate_loop reads is buf1 acc)"

definition calibrateVAD :: "(nat \<Rightarrow> i2s_read_result) \<Rightarrow> vd_state \<Rightarrow> fault + vd_state" where
  "calibrateVAD reads s =
     (case calibrate_loop reads [0..<30] (vadBuffer s) [] of
        Inl e \<Rightarrow> Inl e
      | Inr (buf, samples) \<Rightarrow>
          let sampleIndex = length samples; s1 = s\<lparr> vadBuffer := buf \<rparr>
          in if sampleIndex > 0 then
               (let sum_f = fold (\<lambda>x sum_f. sum_f + x) samples 0.0;
                    averageNoise = sum_f / real sampleIndex
                in Inr (s1\<lparr> noiseFloor := MAX_macro (averageNoise * 1.2) VAD_NOISE_FLOOR \<rparr>))
             else Inr s1)"

definition initializeVAD ::
  "millis \<Rightarrow> (nat \<Rightarrow> i2s_read_result) \<Rightarrow> vd_state \<Rightarrow> fault + vd_state" where
  "initializeVAD now reads s =
     calibrateVAD reads
       (s\<lparr> noiseFloor := VAD_NOISE_FLOOR, currentAudioLevel := 0.0, runningAverage := 0.0,
           sampleCount := 0, lastNoiseUpdate := now, vadInitialized := True \<rparr>)"

text \<open>
  The states the module can be in: the static initialisers, and whatever a call of one of
  its functions that change the state leaves behind.
\<close>

inductive vd_reachable :: "vd_state \<Rightarrow> bool" where
  vd_boot: "vd_reachable vd_statics"
| vd_init: "vd_reachable s \<Longrightarrow> initializeVAD now reads s = Inr s' \<Longrightarrow> vd_reachable s'"
| vd_calibrate: "vd_reachable s \<Longrightarrow> calibrateVAD reads s = Inr s' \<Longrightarrow> vd_reachable s'"
| vd_update: "vd_reachable s \<Longrightarrow> vd_reachable (updateNoiseFloor now s)"
| vd_detect: "vd_reachable s \<Longrightarrow> detectVoiceActivity now r s = Inr (b, s') \<Longrightarrow> vd_reachable s'"


subsection \<open>Example inputs of voice_detection.cpp\<close>

text \<open>
  A calibration in a quiet room: every one of the thirty reads succeeds and delivers two
  samples of value 125, so every RMS is 125, the average is 125 and the calibrated floor
  is \<open>125 * 1.2 = 150\<close>.  \<open>calibrated\<close> is the state \<open>initializeVAD\<close> leaves then (lemma
  \<open>initializeVAD_quiet_room\<close>).
\<close>

definition quiet_room :: "nat \<Rightarrow> i2s_read_result" where
  "quiet_room i = \<lparr> esp_ok = True, delivered = [125, 125] \<rparr>"

definition calibrated :: vd_state where
  "calibrated = \<lparr> noiseFloor = 150, currentAudioLevel = 0,
     vadBuffer = [125, 125] @ replicate 254 0, vadInitialized = True,
     lastNoiseUpdate = 0, runningAverage = 0, sampleCount = 0 \<rparr>"

text \<open>
  Three short reads: one of sentinel values only, and two of the same four values in a
  different order, so with the same mean, RMS and variance.
\<close>

definition sentinel_frame :: "int16 list" where
  "sentinel_frame = [0, - 1, 0, 0, 0, 1, 0, 0]"




section \<open>The detector of the two integration sketches\<close>

text \<open>
  The state machine sketch (Test 7, \<open>performVAD\<close>) and the end-to-end sketch (Test 10,
  \<open>performAdvancedVAD\<close>) read the PDM microphone through \<open>I2S.available()\<close> and
  \<open>I2S.read()\<close>.  The receive queue is the list of the values successive \<open>I2S.read()\<close>
  calls return; \<open>I2S.available()\<close> is true while it is not empty.
\<close>

definition VAD_SAMPLES :: nat where "VAD_SAMPLES = 512"
definition RMS_THRESHOLD :: real where "RMS_THRESHOLD = 50.0"
definition VARIANCE_MIN :: real where "VARIANCE_MIN = 5000.0"
definition VARIANCE_MAX :: real where "VARIANCE_MAX = 100000.0"
definition VAD_TRIGGER_COUNT :: int where "VAD_TRIGGER_COUNT = 3"

text \<open>
  The loop \<open>while (I2S.available() && samplesRead < VAD_SAMPLES)\<close>: a sample other than
  0, -1 and 1 is cast to \<open>int16_t\<close> and stored at \<open>audioBuffer[samplesRead]\<close>.  The result
  is the buffer, \<open>samplesRead\<close> and what is left in the queue.
\<close>

fun read_samples :: "int32 list \<Rightarrow> int16 list \<Rightarrow> nat \<Rightarrow> int16 list \<times> nat \<times> int32 list" where
  "read_samples [] audioBuffer samplesRead = (audioBuffer, samplesRead, [])"
| "read_samples (sample # queue) audioBuffer samplesRead =
     (if samplesRead < VAD_SAMPLES then
        (if sample \<noteq> 0 \<and> sample \<noteq> -1 \<and> sample \<noteq> 1
         then read_samples queue (audioBuffer[samplesRead := ucast sample]) (samplesRead + 1)
         else read_samples queue audioBuffer samplesRead)
      else (audioBuffer, samplesRead, sample # queue))"

text \<open>
  The three loops over \<open>audioBuffer[0 .. samplesRead - 1]\<close>.  The product
  \<open>audioBuffer[i] * audioBuffer[i]\<close> is an \<open>int\<close> product (at most \<open>2^30\<close>) that is added
  to the float \<open>sum\<close>.
\<close>

definition vad_rms :: "int16 list \<Rightarrow> nat \<Rightarrow> real" where
  "vad_rms audioBuffer samplesRead =
     sqrt (fold (\<lambda>a sum_f. sum_f + real_of_int (sint a * sint a))
             (take samplesRead audioBuffer) 0 / real samplesRead)"

definition vad_mean :: "int16 list \<Rightarrow> nat \<Rightarrow> real" where
  "vad_mean audioBuffer samplesRead =
     fold (\<lambda>a mean. mean + real_of_int (sint a)) (take samplesRead audioBuffer) 0
       / real samplesRead"

definition vad_variance :: "int16 list \<Rightarrow> nat \<Rightarrow> real" where
  "vad_variance audioBuffer samplesRead =
     (let mean = vad_mean audioBuffer samplesRead
      in fold (\<lambda>a variance. let diff = real_of_int (sint a) - mean in variance + diff * diff)
           (take samplesRead audioBuffer) 0 / real samplesRead)"

text \<open>The decision both sketches take from the statistics.\<close>

definition vad_decision :: "int16 list \<Rightarrow> nat \<Rightarrow> bool" where
  "vad_decision audioBuffer samplesRead =
     (let rms = vad_rms audioBuffer samplesRead;
          variance = vad_variance audioBuffer samplesRead;
          rmsCheck = (rms > RMS_THRESHOLD);
          varianceCheck = (variance > VARIANCE_MIN \<and> variance < VARIANCE_MAX)
      in rmsCheck \<and> varianceCheck)"

subsection \<open>Test 7: \<open>performVAD\<close>\<close>

text \<open>
  The detector's variables in the state machine sketch: the global \<open>audioBuffer\<close> and the
  static \<open>lastDebug\<close> of the occasional debug line.
\<close>

record vad7_state =
  audioBuffer7 :: "int16 list"
  lastDebug :: millis

definition performVAD :: "millis \<Rightarrow> int32 list \<Rightarrow> vad7_state \<Rightarrow> bool \<times> vad7_state \<times> int32 list" where
  "performVAD now queue s =
     (if queue = [] then (False, s, queue)
      else
        case read_samples queue (audioBuffer7 s) 0 of
          (buf, samplesRead, rest) \<Rightarrow>
            let s1 = s\<lparr> audioBuffer7 := buf \<rparr>
            in if samplesRead < VAD_SAMPLES div 2 then (False, s1, rest)
               else
                 let voiceDetected = vad_decision buf samplesRead;
                     s2 = (if now - lastDebug s1 > 2000 then s1\<lparr> lastDebug := now \<rparr> else s1)
                 in (voiceDetected, s2, rest))"

subsection \<open>Test 10: \<open>performAdvancedVAD\<close>\<close>

text \<open>
  The detector's variables in the end-to-end sketch: the global \<open>audioBuffer\<close>, the static
  \<open>consecutiveDetections\<close> and the global counter \<open>vadTriggerCount\<close>.
\<close>

record vad10_state =
  audioBuffer :: "int16 list"
  consecutiveDetections :: int
  vadTriggerCount :: int

text \<open>The last part of \<open>performAdvancedVAD\<close>: what it does with \<open>currentDetection\<close>.\<close>

definition debounce :: "bool \<Rightarrow> vad10_state \<Rightarrow> bool \<times> vad10_state" where
  "debounce currentDetection s =
     (if currentDetection then
        (let s1 = s\<lparr> consecutiveDetections := consecutiveDetections s + 1 \<rparr>
         in if consecutiveDetections s1 \<ge> VAD_TRIGGER_COUNT
            then (True, s1\<lparr> consecutiveDetections := 0,
                             vadTriggerCount := vadTriggerCount s1 + 1 \<rparr>)
            else (False, s1))
      else (False, s\<lparr> consecutiveDetections := 0 \<rparr>))"

definition performAdvancedVAD :: "int32 list \<Rightarrow> vad10_state \<Rightarrow> bool \<times> vad10_state \<times> int32 list" where
  "performAdvancedVAD queue s =
     (if queue = [] then (False, s, queue)
      else
        case read_samples queue (audioBuffer s) 0 of
          (buf, samplesRead, rest) \<Rightarrow>
            let s1 = s\<lparr> audioBuffer := buf \<rparr>
            in if samplesRead < VAD_SAMPLES div 2 then (False, s1, rest)
               else
                 let currentDetection = vad_decision buf samplesRead;
                     (result, s2) = debounce currentDetection s1
                 in (result, s2, rest))"

text \<open>
  The detector called once per frame: \<open>frames\<close> holds, for every call, the queue it finds.
  The result lists what the calls returned, with the state after the last.
\<close>

fun vad_run :: "int32 list list \<Rightarrow> vad10_state \<Rightarrow> bool list \<times> vad10_state" where
  "vad_run [] s = ([], s)"
| "vad_run (queue # frames) s =
     (case performAdvancedVAD queue s of
        (result, s1, rest) \<Rightarrow> (case vad_run frames s1 of (results, s2) \<Rightarrow> (result # results, s2)))"

text \<open>The static initialisers, with the buffer of \<open>VAD_SAMPLES\<close> zeros.\<close>

definition vad10_statics :: vad10_state where
  "vad10_statics = \<lparr> audioBuffer = replicate VAD_SAMPLES 0, consecutiveDetections = 0,
     vadTriggerCount = 0 \<rparr>"


subsection \<open>Notions used to state the detector's properties\<close>

text \<open>
  The samples a call collects from the queue it finds: the values other than the
  sentinels 0, -1 and 1, cast to \<open>int16_t\<close>, up to \<open>VAD_SAMPLES\<close> of them.  Lemma
  \<open>read_samples_frame\<close> shows that this is what \<open>read_samples\<close> leaves in
  \<open>audioBuffer[0 .. samplesRead - 1]\<close>.
\<close>

definition valid_sample :: "int32 \<Rightarrow> bool" where
  "valid_sample sample = (sample \<noteq> 0 \<and> sample \<noteq> -1 \<and> sample \<noteq> 1)"

definition frame_of :: "int32 list \<Rightarrow> int16 list" where
  "frame_of queue = take VAD_SAMPLES (map ucast (filter valid_sample queue))"

text \<open>A call reaches the statistics when it has collected half of \<open>VAD_SAMPLES\<close>.\<close>

definition conclusive :: "int32 list \<Rightarrow> bool" where
  "conclusive queue = (VAD_SAMPLES div 2 \<le> length (frame_of queue))"

text \<open>The raw detection of such a call: \<open>currentDetection\<close>, \<open>voiceDetected\<close> in Test 7.\<close>

definition raw_detection :: "int32 list \<Rightarrow> bool" where
  "raw_detection queue = vad_decision (frame_of queue) (length (frame_of queue))"

text \<open>The integer sums the statistics are made of.\<close>

definition sum_samples :: "int16 list \<Rightarrow> int" where
  "sum_samples xs = sum_list (map sint xs)"

definition sum_squares :: "int16 list \<Rightarrow> int" where
  "sum_squares xs = sum_list (map (\<lambda>a. sint a * sint a) xs)"






text \<open>
  Positions in a sequence of raw detections and of results: \<open>three_run rs i\<close> says that
  the detections \<open>i - 2\<close>, \<open>i - 1\<close> and \<open>i\<close> are all positive, \<open>first_run rs i\<close> that \<open>i\<close>
  is the first such position, \<open>first_true outs i\<close> that \<open>i\<close> is the first position
  where \<open>outs\<close> is true.
\<close>

definition three_run :: "bool list \<Rightarrow> nat \<Rightarrow> bool" where
  "three_run rs i = (2 \<le> i \<and> i < length rs \<and> rs ! (i - 2) \<and> rs ! (i - 1) \<and> rs ! i)"

definition first_run :: "bool list \<Rightarrow> nat \<Rightarrow> bool" where
  "first_run rs i = (three_run rs i \<and> (\<forall>j<i. \<not> three_run rs j))"

definition first_true :: "bool list \<Rightarrow> nat \<Rightarrow> bool" where
  "first_true outs i = (i < length outs \<and> outs ! i \<and> (\<forall>j<i. \<not> outs ! j))"

text \<open>
  The results of the debounce step alone, from a counter value \<open>c\<close>, over a sequence of
  raw detections.
\<close>

fun debounce_outputs :: "nat \<Rightarrow> bool list \<Rightarrow> bool list" where
  "debounce_outputs c [] = []"
| "debounce_outputs c (r # rs) =
     (if r then (if c + 1 \<ge> 3 then True # debounce_outputs 0 rs
                 else False # debounce_outputs (c + 1) rs)
      else False # debounce_outputs 0 rs)"

text \<open>
  Queues used as examples: a voice-like frame (256 samples, alternately 100 and -100), a
  quiet one (256 samples of value 2), a harsh one (256 samples, alternately 400 and
  -400), a frame with a DC offset (256 samples of value 100), and a queue that holds
  sentinel values only.
\<close>

definition loud :: "int32 list" where "loud = concat (replicate 128 [100, - 100])"
definition quiet :: "int32 list" where "quiet = replicate 256 2"
definition offset_only :: "int32 list" where "offset_only = replicate 256 100"
definition sentinels_only :: "int32 list" where "sentinels_only = concat (replicate 200 [0, - 1, 1])"


section \<open>audio_recorder.cpp\<close>

text \<open>The macros of config.h the recorder uses; they are \<open>int\<close> constants.\<close>

definition SAMPLE_RATE :: int where "SAMPLE_RATE = 16000"
definition BITS_PER_SAMPLE :: int where "BITS_PER_SAMPLE = 16"
definition CHANNELS :: int where "CHANNELS = 1"
definition BUFFER_SIZE :: nat where "BUFFER_SIZE = 1024"

text \<open>The struct \<open>wav_header_t\<close> of audio_recorder.h.\<close>

record wav_header_t =
  chunkID :: string
  chunkSize :: uint32
  format :: string
  subchunk1ID :: string
  subchunk1Size :: uint32
  audioFormat :: "16 word"
  numChannels :: "16 word"
  sampleRate :: uint32
  byteRate :: uint32
  blockAlign :: "16 word"
  bitsPerSample :: "16 word"
  subchunk2ID :: string
  subchunk2Size :: uint32

definition createWAVHeader :: "uint32 \<Rightarrow> wav_header_t" where
  "createWAVHeader dataSize =
     \<lparr> chunkID = ''RIFF'',
       chunkSize = 36 + dataSize,
       format = ''WAVE'',
       subchunk1ID = ''fmt '',
       subchunk1Size = 16,
       audioFormat = 1,
       numChannels = word_of_int CHANNELS,
       sampleRate = word_of_int SAMPLE_RATE,
       byteRate = word_of_int (SAMPLE_RATE * CHANNELS * (BITS_PER_SAMPLE div 8)),
       blockAlign = word_of_int (CHANNELS * (BITS_PER_SAMPLE div 8)),
       bitsPerSample = word_of_int BITS_PER_SAMPLE,
       subchunk2ID = ''data'',
       subchunk2Size = dataSize \<rparr>"

text \<open>
  The bytes \<open>recordingFile.write((uint8_t*)&header, sizeof(header))\<close> writes: the fields in
  order, integers little-endian.  The struct has no padding (every field is aligned at
  its offset), so \<open>sizeof(header)\<close> is 44.  \<open>sample_bytes\<close> are the bytes of the samples
  in \<open>audioBuffer\<close>.
\<close>

type_synonym byte = "8 word"

definition le16 :: "16 word \<Rightarrow> byte list" where
  "le16 w = [ucast w, ucast (drop_bit 8 w)]"

definition le32 :: "32 word \<Rightarrow> byte list" where
  "le32 w = [ucast w, ucast (drop_bit 8 w), ucast (drop_bit 16 w), ucast (drop_bit 24 w)]"

definition tag_bytes :: "string \<Rightarrow> byte list" where
  "tag_bytes t = map (\<lambda>c. word_of_nat (of_char c)) t"

definition header_bytes :: "wav_header_t \<Rightarrow> byte list" where
  "header_bytes h =
     tag_bytes (chunkID h) @ le32 (chunkSize h) @ tag_bytes (format h)
     @ tag_bytes (subchunk1ID h) @ le32 (subchunk1Size h) @ le16 (audioFormat h)
     @ le16 (numChannels h) @ le32 (sampleRate h) @ le32 (byteRate h) @ le16 (blockAlign h)
     @ le16 (bitsPerSample h) @ tag_bytes (subchunk2ID h) @ le32 (subchunk2Size h)"

definition sample_bytes :: "int16 list \<Rightarrow> byte list" where
  "sample_bytes samples = concat (map le16 samples)"

text \<open>Reading a little-endian 32-bit field back, at offset \<open>off\<close> of a container.\<close>

definition rd32 :: "byte list \<Rightarrow> nat \<Rightarrow> uint32" where
  "rd32 bs off =
     word_of_nat (unat (bs ! off) + 256 * unat (bs ! (off + 1)) + 65536 * unat (bs ! (off + 2))
                  + 16777216 * unat (bs ! (off + 3)))"

definition rd16 :: "byte list \<Rightarrow> nat \<Rightarrow> 16 word" where
  "rd16 bs off = word_of_nat (unat (bs ! off) + 256 * unat (bs ! (off + 1)))"

text \<open>
  A file of the SD card: its bytes, the position of the next write and whether it is
  open.  \<open>write\<close> stores the first \<open>written\<close> of the bytes it is given, \<open>written\<close> being
  the count the call returns.
\<close>

record sd_file =
  content :: "byte list"
  position :: nat
  is_open :: bool

definition file_write :: "byte list \<Rightarrow> nat \<Rightarrow> sd_file \<Rightarrow> sd_file" where
  "file_write bytes written f =
     (let stored = take written bytes
      in f\<lparr> content := take (position f) (content f) @ stored
                          @ drop (position f + length stored) (content f),
            position := position f + length stored \<rparr>)"

text \<open>The static variables of the file.\<close>

record rec_state =
  recordingFile :: sd_file
  recording :: bool
  bytesWritten :: uint32
  recordingStartTime :: uint32

definition rec_statics :: rec_state where
  "rec_statics = \<lparr> recordingFile = \<lparr> content = [], position = 0, is_open = False \<rparr>,
     recording = False, bytesWritten = 0, recordingStartTime = 0 \<rparr>"

text \<open>
  What the drivers answer during \<open>startRecording\<close>: whether \<open>SD.open(filename,
  FILE_WRITE)\<close> gave a file (a new, empty one), how many bytes the write of the header
  stored, whether \<open>i2s_start\<close> returned \<open>ESP_OK\<close>, and the clock.
\<close>

record start_env =
  open_ok :: bool
  start_written :: nat
  i2s_start_ok :: bool
  start_now :: millis

definition startRecording :: "start_env \<Rightarrow> rec_state \<Rightarrow> bool \<times> rec_state" where
  "startRecording e s =
     (if recording s then (False, s)
      else if \<not> open_ok e then (False, s\<lparr> recordingFile := (recordingFile s)\<lparr> is_open := False \<rparr> \<rparr>)
      else
        let f = \<lparr> content = [], position = 0, is_open = True \<rparr>;
            header = createWAVHeader 0;
            f1 = file_write (header_bytes header) (start_written e) f
        in if start_written e \<noteq> 44 then (False, s\<lparr> recordingFile := f1\<lparr> is_open := False \<rparr> \<rparr>)
           else if \<not> i2s_start_ok e
             then (False, s\<lparr> recordingFile := f1\<lparr> is_open := False \<rparr> \<rparr>)
           else (True, s\<lparr> recordingFile := f1, recording := True, bytesWritten := 0,
                         recordingStartTime := start_now e \<rparr>))"

text \<open>
  What the drivers answer during \<open>continueRecording\<close>: whether \<open>i2s_read\<close> returned
  \<open>ESP_OK\<close>, the samples it delivered (\<open>bytesRead\<close> is twice their number, at most
  \<open>sizeof(audioBuffer)\<close>), and how many bytes the write stored.
\<close>

record continue_env =
  read_ok :: bool
  read_samples_r :: "int16 list"
  data_written :: nat

definition continueRecording :: "continue_env \<Rightarrow> rec_state \<Rightarrow> bool \<times> rec_state" where
  "continueRecording e s =
     (if \<not> recording s then (False, s)
      else if \<not> read_ok e then (False, s)
      else
        let samples = take BUFFER_SIZE (read_samples_r e);
            bytesRead = 2 * length samples
        in if bytesRead > 0 then
             (let f1 = file_write (sample_bytes samples) (data_written e) (recordingFile s);
                  s1 = s\<lparr> recordingFile := f1 \<rparr>
              in if data_written e \<noteq> bytesRead then (False, s1)
                 else (True, s1\<lparr> bytesWritten := bytesWritten s + word_of_nat (data_written e) \<rparr>))
           else (True, s))"

text \<open>
  What the drivers answer during \<open>stopRecording\<close>: how many bytes the write of the header
  stored.  (A failure of \<open>i2s_stop\<close> is only logged.)
\<close>

record stop_env =
  stop_written :: nat

definition stopRecording :: "stop_env \<Rightarrow> rec_state \<Rightarrow> bool \<times> rec_state" where
  "stopRecording e s =
     (if \<not> recording s then (False, s)
      else
        let f0 = (recordingFile s)\<lparr> position := 0 \<rparr>;
            header = createWAVHeader (bytesWritten s);
            f1 = file_write (header_bytes header) (stop_written e) f0;
            s1 = s\<lparr> recordingFile := f1\<lparr> is_open := False \<rparr>, recording := False \<rparr>
        in if stop_written e \<noteq> 44 then (False, s1) else (True, s1))"

text \<open>
  A session in which every driver call succeeds: \<open>startRecording\<close>, one
  \<open>continueRecording\<close> per frame of \<open>frames\<close>, \<open>stopRecording\<close>.  The result lists what
  the calls returned and the state at the end.
\<close>

fun continue_all :: "int16 list list \<Rightarrow> rec_state \<Rightarrow> bool list \<times> rec_state" where
  "continue_all [] s = ([], s)"
| "continue_all (samples # frames) s =
     (case continueRecording \<lparr> read_ok = True, read_samples_r = samples,
                               data_written = 2 * length (take BUFFER_SIZE samples) \<rparr> s of
        (ok, s1) \<Rightarrow> (case continue_all frames s1 of (oks, s2) \<Rightarrow> (ok # oks, s2)))"

definition session :: "millis \<Rightarrow> int16 list list \<Rightarrow> rec_state \<Rightarrow> bool list \<times> rec_state" where
  "session now frames s =
     (case startRecording \<lparr> open_ok = True, start_written = 44, i2s_start_ok = True,
                             start_now = now \<rparr> s of
        (ok1, s1) \<Rightarrow>
          (case continue_all frames s1 of
             (oks, s2) \<Rightarrow>
               (case stopRecording \<lparr> stop_written = 44 \<rparr> s2 of
                  (ok3, s3) \<Rightarrow> (ok1 # oks @ [ok3], s3))))"

text \<open>What the specification counts: the samples that are not 0, -1 or 1.\<close>

definition valid_count :: "int16 list list \<Rightarrow> nat" where
  "valid_count frames = length (filter (\<lambda>x. x \<noteq> 0 \<and> x \<noteq> - 1 \<and> x \<noteq> 1) (concat frames))"


section \<open>wifi_sync.cpp and the parts of sd_manager.cpp it calls\<close>






















section \<open>Auxiliary facts about sums\<close>

lemma fold_plus_real:
  "fold (\<lambda>a (acc::real). acc + f a) xs z = z + sum_list (map f xs)"
  by (induction xs arbitrary: z) simp_all

lemma fold_sq_dev:
  "fold (\<lambda>a (v::real). v + (f a - m) * (f a - m)) xs z
     = z + sum_list (map (\<lambda>a. (f a - m) * (f a - m)) xs)"
  by (induction xs arbitrary: z) simp_all

lemma sum_sq_dev:
  "sum_list (map (\<lambda>a. (f a - m) * (f a - m)) xs)
     = sum_list (map (\<lambda>a. f a * f a) xs) - 2 * m * sum_list (map f xs)
       + real (length xs) * m * (m::real)"
  by (induction xs) (simp_all add: algebra_simps)

lemma of_int_sum_list:
  "real_of_int (sum_list (map f xs)) = sum_list (map (\<lambda>a. real_of_int (f a)) xs)"
  by (induction xs) simp_all


section \<open>Properties of voice_detection.cpp\<close>

lemma MAX_macro_ge: "b \<le> MAX_macro a b"
  by (simp add: MAX_macro_def)

lemma updateNoiseFloor_floor:
  "VAD_NOISE_FLOOR \<le> noiseFloor s \<Longrightarrow> VAD_NOISE_FLOOR \<le> noiseFloor (updateNoiseFloor now s)"
  by (simp add: updateNoiseFloor_def Let_def MAX_macro_ge)

lemma calibrateVAD_floor:
  assumes "VAD_NOISE_FLOOR \<le> noiseFloor s" and "calibrateVAD reads s = Inr s'"
  shows "VAD_NOISE_FLOOR \<le> noiseFloor s'"
  using assms
  by (auto simp: calibrateVAD_def Let_def MAX_macro_ge split: sum.splits prod.splits if_splits)

lemma initializeVAD_floor:
  assumes "initializeVAD now reads s = Inr s'"
  shows "VAD_NOISE_FLOOR \<le> noiseFloor s'"
  using assms unfolding initializeVAD_def
  by (rule calibrateVAD_floor [rotated]) simp

lemma detectVoiceActivity_floor:
  assumes "VAD_NOISE_FLOOR \<le> noiseFloor s" and "detectVoiceActivity now r s = Inr (b, s')"
  shows "VAD_NOISE_FLOOR \<le> noiseFloor s'"
proof (cases "vadInitialized s \<and> esp_ok r \<and> int (length (i2s_samples r)) \<noteq> 0")
  case False
  with assms show ?thesis
    by (auto simp: detectVoiceActivity_def Let_def split: if_splits)
next
  case True
  with assms(2) obtain rms where
    s': "s' = updateNoiseFloor now
                (s\<lparr> vadBuffer := i2s_store r (vadBuffer s), currentAudioLevel := rms \<rparr>)"
    by (auto simp: detectVoiceActivity_def Let_def split: sum.splits if_splits)
  show ?thesis
    unfolding s' using assms(1) by (intro updateNoiseFloor_floor) simp
qed

subsection \<open>The arithmetic never faults\<close>

lemma rms_sum_total:
  "0 \<le> i \<Longrightarrow> count \<le> int (length samples) \<Longrightarrow> \<exists>r. rms_sum samples count i acc = Inr r"
proof (induction samples count i acc rule: rms_sum.induct)
  case (1 samples count i acc)
  show ?case
  proof (cases "i < count")
    case True
    with 1 show ?thesis
      by (subst rms_sum.simps) (auto simp: Let_def)
  next
    case False
    then show ?thesis by (subst rms_sum.simps) simp
  qed
qed

lemma zcr_count_total:
  "1 \<le> i \<Longrightarrow> count \<le> int (length samples) \<Longrightarrow> \<exists>r. zcr_count samples count i acc = Inr r"
proof (induction samples count i acc rule: zcr_count.induct)
  case (1 samples count i acc)
  show ?case
  proof (cases "i < count")
    case True
    with 1 show ?thesis
      by (subst zcr_count.simps) (auto simp: Let_def)
  next
    case False
    then show ?thesis by (subst zcr_count.simps) simp
  qed
qed

lemma calculateRMS_total:
  "count \<le> int (length samples) \<Longrightarrow> \<exists>r. calculateRMS samples count = Inr r"
  using rms_sum_total [of 0 count samples 0]
  by (auto simp: calculateRMS_def checked_div_def split: sum.splits)

lemma calculateZeroCrossingRate_total:
  "count \<le> int (length samples) \<Longrightarrow> \<exists>r. calculateZeroCrossingRate samples count = Inr r"
  using zcr_count_total [of 1 count samples 0]
  by (auto simp: calculateZeroCrossingRate_def checked_div_def split: sum.splits)

lemma length_i2s_store:
  "length buf = VAD_SAMPLE_WINDOW \<Longrightarrow> length (i2s_store r buf) = VAD_SAMPLE_WINDOW"
  by (simp add: i2s_store_def i2s_samples_def)

lemma length_i2s_samples: "length (i2s_samples r) \<le> VAD_SAMPLE_WINDOW"
  by (simp add: i2s_samples_def)

lemma detectVoiceActivity_total:
  assumes "length (vadBuffer s) = VAD_SAMPLE_WINDOW"
  shows "\<exists>b s'. detectVoiceActivity now r s = Inr (b, s')"
proof -
  let ?buf = "i2s_store r (vadBuffer s)"
  let ?n = "int (length (i2s_samples r))"
  have n: "?n \<le> int (length ?buf)"
    using length_i2s_store [OF assms, of r] length_i2s_samples [of r] by simp
  obtain rms zcr where
    "calculateRMS ?buf ?n = Inr rms" "calculateZeroCrossingRate ?buf ?n = Inr zcr"
    using calculateRMS_total [OF n] calculateZeroCrossingRate_total [OF n] by blast
  then show ?thesis
    by (auto simp: detectVoiceActivity_def Let_def)
qed

lemma calibrate_loop_total:
  "length buf = VAD_SAMPLE_WINDOW \<Longrightarrow>
   \<exists>buf' acc'. calibrate_loop reads is buf acc = Inr (buf', acc') \<and> length buf' = VAD_SAMPLE_WINDOW"
proof (induction "is" arbitrary: buf acc)
  case Nil
  then show ?case by simp
next
  case (Cons i "is")
  let ?buf = "i2s_store (reads i) buf"
  let ?n = "int (length (i2s_samples (reads i)))"
  have len: "length ?buf = VAD_SAMPLE_WINDOW"
    by (rule length_i2s_store [OF Cons.prems])
  have n: "?n \<le> int (length ?buf)"
    using len length_i2s_samples [of "reads i"] by simp
  obtain rms where rms: "calculateRMS ?buf ?n = Inr rms"
    using calculateRMS_total [OF n] by blast
  show ?case
    using Cons.IH [OF len] rms by (simp add: Let_def)
qed

lemma calibrateVAD_total:
  assumes "length (vadBuffer s) = VAD_SAMPLE_WINDOW"
  shows "\<exists>s'. calibrateVAD reads s = Inr s' \<and> length (vadBuffer s') = VAD_SAMPLE_WINDOW"
proof -
  obtain buf' acc' where
    "calibrate_loop reads [0..<30] (vadBuffer s) [] = Inr (buf', acc')"
    "length buf' = VAD_SAMPLE_WINDOW"
    using calibrate_loop_total [OF assms] by blast
  then show ?thesis
    by (simp add: calibrateVAD_def Let_def)
qed

lemma initializeVAD_total:
  assumes "length (vadBuffer s) = VAD_SAMPLE_WINDOW"
  shows "\<exists>s'. initializeVAD now reads s = Inr s' \<and> length (vadBuffer s') = VAD_SAMPLE_WINDOW"
  unfolding initializeVAD_def using assms by (intro calibrateVAD_total) simp

lemma detectVoiceActivity_length:
  assumes "length (vadBuffer s) = VAD_SAMPLE_WINDOW" and "detectVoiceActivity now r s = Inr (b, s')"
  shows "length (vadBuffer s') = VAD_SAMPLE_WINDOW"
  using assms length_i2s_store [OF assms(1), of r]
  by (auto simp: detectVoiceActivity_def updateNoiseFloor_def Let_def split: if_splits sum.splits)

lemma vd_reachable_length: "vd_reachable s \<Longrightarrow> length (vadBuffer s) = VAD_SAMPLE_WINDOW"
proof (induction rule: vd_reachable.induct)
  case vd_boot
  show ?case by (simp add: vd_statics_def)
next
  case (vd_init s now reads s')
  with initializeVAD_total [of s now reads] show ?case by auto
next
  case (vd_calibrate s reads s')
  with calibrateVAD_total [of s reads] show ?case by auto
next
  case (vd_update s now)
  then show ?case by (simp add: updateNoiseFloor_def Let_def)
next
  case (vd_detect s now r b s')
  then show ?case by (simp add: detectVoiceActivity_length)
qed

lemma vd_reachable_floor: "vd_reachable s \<Longrightarrow> VAD_NOISE_FLOOR \<le> noiseFloor s"
proof (induction rule: vd_reachable.induct)
  case vd_boot
  show ?case by (simp add: vd_statics_def)
next
  case (vd_init s now reads s')
  then show ?case by (simp add: initializeVAD_floor)
next
  case (vd_calibrate s reads s')
  then show ?case by (simp add: calibrateVAD_floor)
next
  case (vd_update s now)
  then show ?case by (simp add: updateNoiseFloor_floor)
next
  case (vd_detect s now r b s')
  then show ?case by (simp add: detectVoiceActivity_floor)
qed

lemma updateNoiseFloor_not_within:
  assumes "VAD_NOISE_FLOOR \<le> noiseFloor s" and "\<not> currentAudioLevel s < noiseFloor s * 1.5"
  shows "noiseFloor (updateNoiseFloor now s) = noiseFloor s"
  using assms by (simp add: updateNoiseFloor_def Let_def MAX_macro_def)



subsection \<open>The RMS in closed form\<close>

lemma rms_sum_closed:
  "0 \<le> i \<Longrightarrow> i \<le> count \<Longrightarrow> count \<le> int (length samples) \<Longrightarrow>
   rms_sum samples count i acc
     = Inr (acc + sum_list (map (\<lambda>a. real_of_int (sint a) * real_of_int (sint a))
                       (drop (nat i) (take (nat count) samples))))"
proof (induction samples count i acc rule: rms_sum.induct)
  case (1 samples count i acc)
  show ?case
  proof (cases "i < count")
    case False
    with "1.prems" have "i = count" by simp
    then show ?thesis by (subst rms_sum.simps) simp
  next
    case True
    with "1.prems" have in_range: "nat i < length (take (nat count) samples)" by simp
    have d: "drop (nat i) (take (nat count) samples)
        = samples ! nat i # drop (nat (i + 1)) (take (nat count) samples)"
      using Cons_nth_drop_Suc [OF in_range, symmetric] in_range "1.prems"(1)
      by (simp add: nat_add_distrib)
    from True "1.prems" have "0 \<le> i \<and> nat i < length samples" by simp
    with True "1.IH" [OF True _ refl] "1.prems" show ?thesis
      by (subst rms_sum.simps) (simp add: Let_def d)
  qed
qed

lemma calculateRMS_closed:
  assumes "0 < count" and "count \<le> int (length samples)"
  shows "calculateRMS samples count
     = Inr (sqrt (sum_list (map (\<lambda>a. real_of_int (sint a) * real_of_int (sint a))
                    (take (nat count) samples)) / real_of_int count))"
  using assms rms_sum_closed [of 0 count samples 0]
  by (simp add: calculateRMS_def checked_div_def)

text \<open>A read that delivers sentinel values only has an RMS of at most 1.\<close>

lemma sentinel_squares_le:
  assumes "\<forall>x \<in> set xs. x = 0 \<or> x = 1 \<or> x = (- 1 :: int16)"
  shows "sum_list (map (\<lambda>a. real_of_int (sint a) * real_of_int (sint a)) xs) \<le> real (length xs)"
  using assms by (induction xs) auto

lemma calculateRMS_sentinels:
  assumes "\<forall>x \<in> set xs. x = 0 \<or> x = 1 \<or> x = (- 1 :: int16)" and "xs \<noteq> []"
  shows "\<exists>rms. calculateRMS (xs @ ys) (int (length xs)) = Inr rms \<and> rms \<le> 1"
proof -
  let ?q = "sum_list (map (\<lambda>a. real_of_int (sint a) * real_of_int (sint a)) xs)"
  have c: "calculateRMS (xs @ ys) (int (length xs)) = Inr (sqrt (?q / real (length xs)))"
    using calculateRMS_closed [of "int (length xs)" "xs @ ys"] assms(2) by simp
  have "?q / real (length xs) \<le> 1"
    using sentinel_squares_le [OF assms(1)] assms(2) by (simp add: field_simps)
  then have "sqrt (?q / real (length xs)) \<le> 1"
    by (simp add: real_sqrt_le_1_iff del: of_int_mult)
  with c show ?thesis by blast
qed

lemma detectVoiceActivity_sentinels:
  assumes "vd_reachable s" and "\<forall>x \<in> set (delivered r). x = 0 \<or> x = 1 \<or> x = - 1"
  shows "\<exists>s'. detectVoiceActivity now r s = Inr (False, s')"
proof (cases "vadInitialized s \<and> esp_ok r \<and> i2s_samples r \<noteq> []")
  case False
  then show ?thesis by (auto simp: detectVoiceActivity_def Let_def)
next
  case True
  let ?xs = "i2s_samples r"
  let ?buf = "i2s_store r (vadBuffer s)"
  have len: "length (vadBuffer s) = VAD_SAMPLE_WINDOW"
    by (rule vd_reachable_length [OF assms(1)])
  have "set ?xs \<subseteq> set (delivered r)"
    by (simp add: i2s_samples_def set_take_subset)
  with assms(2) have sent: "\<forall>x \<in> set ?xs. x = 0 \<or> x = 1 \<or> x = - 1" by blast
  obtain rms where rms: "calculateRMS ?buf (int (length ?xs)) = Inr rms" "rms \<le> 1"
    using calculateRMS_sentinels [OF sent, of "drop (length ?xs) (vadBuffer s)"] True
    by (auto simp: i2s_store_def)
  have n: "int (length ?xs) \<le> int (length ?buf)"
    using length_i2s_store [OF len, of r] length_i2s_samples [of r] by simp
  obtain zcr where zcr: "calculateZeroCrossingRate ?buf (int (length ?xs)) = Inr zcr"
    using calculateZeroCrossingRate_total [OF n] by blast
  let ?s2 = "updateNoiseFloor now (s\<lparr> vadBuffer := ?buf, currentAudioLevel := rms \<rparr>)"
  have "VAD_NOISE_FLOOR \<le> noiseFloor ?s2"
    using vd_reachable_floor [OF assms(1)] by (intro updateNoiseFloor_floor) simp
  with rms(2) have "\<not> rms > noiseFloor ?s2 * VAD_SENSITIVITY"
    by (simp add: VAD_NOISE_FLOOR_def VAD_SENSITIVITY_def)
  with True rms(1) zcr show ?thesis
    by (simp add: detectVoiceActivity_def Let_def)
qed

subsection \<open>The example inputs\<close>

lemma sqrt_15625: "sqrt 15625 = 125"
  by (rule real_sqrt_unique) simp_all


lemma sqrt_quarter: "sqrt (1 / 4) = 1 / 2"
  by (rule real_sqrt_unique) (simp_all add: power2_eq_square)

lemma rms_125: "calculateRMS ([125, 125] @ xs) 2 = Inr 125"
  by (simp add: calculateRMS_def rms_sum.simps checked_div_def sqrt_15625)

lemma i2s_store_idem: "i2s_store r (i2s_store r buf) = i2s_store r buf"
  by (simp add: i2s_store_def)

lemma calibrate_loop_fixed:
  assumes "\<forall>i \<in> set is. reads i = r" and "esp_ok r" and "i2s_samples r \<noteq> []"
    and "calculateRMS (i2s_store r buf) (int (length (i2s_samples r))) = Inr rms"
  shows "calibrate_loop reads is buf acc
          = Inr (if is = [] then buf else i2s_store r buf, acc @ replicate (length is) rms)"
  using assms(1,4)
proof (induction "is" arbitrary: buf acc)
  case Nil
  then show ?case by simp
next
  case (Cons i "is")
  have r: "reads i = r" and rest: "\<forall>i \<in> set is. reads i = r" using Cons.prems(1) by simp_all
  have "calculateRMS (i2s_store r (i2s_store r buf)) (int (length (i2s_samples r))) = Inr rms"
    using Cons.prems(2) by (simp add: i2s_store_idem)
  from Cons.IH [OF rest this] r assms(2,3) Cons.prems(2) show ?case
    by (simp add: Let_def replicate_app_Cons_same i2s_store_idem)
qed

lemma initializeVAD_quiet_room: "initializeVAD 0 quiet_room vd_statics = Inr calibrated"
proof -
  let ?r = "\<lparr> esp_ok = True, delivered = [125, 125] \<rparr>"
  let ?buf = "[125, 125] @ replicate 254 0 :: int16 list"
  have sm: "i2s_samples ?r = [125, 125]"
    by (simp add: i2s_samples_def VAD_SAMPLE_WINDOW_def)
  have st: "i2s_store ?r (replicate VAD_SAMPLE_WINDOW 0) = ?buf"
    by (simp add: i2s_store_def sm VAD_SAMPLE_WINDOW_def)
  have rms: "calculateRMS (i2s_store ?r (replicate VAD_SAMPLE_WINDOW 0))
      (int (length (i2s_samples ?r))) = Inr 125"
    unfolding st sm using rms_125 [of "replicate 254 0"] by simp
  have "calibrate_loop quiet_room [0..<30] (replicate VAD_SAMPLE_WINDOW 0) []
      = Inr (if [0..<30] = [] then replicate VAD_SAMPLE_WINDOW 0
             else i2s_store ?r (replicate VAD_SAMPLE_WINDOW 0),
             [] @ replicate (length [0..<30]) 125)"
    by (rule calibrate_loop_fixed [OF _ _ _ rms]) (simp_all add: quiet_room_def sm)
  then have loop: "calibrate_loop quiet_room [0..<30] (replicate VAD_SAMPLE_WINDOW 0) []
      = Inr (?buf, replicate 30 125)"
    by (simp add: st)
  have "fold (\<lambda>x (sum_f::real). sum_f + x) (replicate 30 125) 0
      = 0 + sum_list (map (\<lambda>x. x) (replicate 30 125))"
    by (rule fold_plus_real)
  then have sum: "fold (\<lambda>x (sum_f::real). sum_f + x) (replicate 30 125) 0 = 3750"
    by (simp add: sum_list_replicate del: fold_replicate)
  show ?thesis
    by (simp add: initializeVAD_def calibrateVAD_def vd_statics_def loop Let_def sum
        calibrated_def MAX_macro_def VAD_NOISE_FLOOR_def del: fold_replicate)
qed

lemma vd_reachable_calibrated: "vd_reachable calibrated"
  by (rule vd_init [OF vd_boot initializeVAD_quiet_room])



lemma detect_sentinel_frame:
  "detectVoiceActivity 1000 \<lparr> esp_ok = True, delivered = sentinel_frame \<rparr> calibrated
     = Inr (False, calibrated\<lparr> vadBuffer := sentinel_frame @ replicate 248 0,
          currentAudioLevel := 0.5, runningAverage := 0.025, noiseFloor := 148.505,
          lastNoiseUpdate := 1000, sampleCount := 1 \<rparr>)"
  by (simp add: detectVoiceActivity_def calibrated_def sentinel_frame_def i2s_store_def
      i2s_samples_def VAD_SAMPLE_WINDOW_def Let_def calculateRMS_def rms_sum.simps checked_div_def
      sqrt_quarter calculateZeroCrossingRate_def zcr_count.simps updateNoiseFloor_def
      MAX_macro_def VAD_NOISE_FLOOR_def VAD_SENSITIVITY_def)

section \<open>Properties of the sketches' detector\<close>

subsection \<open>What the read loop collects\<close>

lemma read_samples_closed:
  assumes "length ab = VAD_SAMPLES" "n \<le> VAD_SAMPLES"
    and "read_samples queue ab n = (ab', n', rest)"
  shows "n' = min VAD_SAMPLES (n + length (filter valid_sample queue))
       \<and> length ab' = VAD_SAMPLES
       \<and> take n' ab' = take n ab @ take (VAD_SAMPLES - n) (map ucast (filter valid_sample queue))"
  using assms
proof (induction queue arbitrary: ab n)
  case Nil
  then show ?case by simp
next
  case (Cons sample queue)
  show ?case
  proof (cases "n < VAD_SAMPLES")
    case False
    with Cons.prems show ?thesis by auto
  next
    case n: True
    show ?thesis
    proof (cases "valid_sample sample")
      case False
      with n Cons.prems have "read_samples queue ab n = (ab', n', rest)"
        by (simp add: valid_sample_def split: if_splits)
      from Cons.IH [OF Cons.prems(1) Cons.prems(2) this] False show ?thesis by auto
    next
      case True
      with n Cons.prems
      have r: "read_samples queue (ab[n := ucast sample]) (Suc n) = (ab', n', rest)"
        by (simp add: valid_sample_def split: if_splits)
      have l: "length (ab[n := ucast sample]) = VAD_SAMPLES" using Cons.prems by simp
      have sn: "Suc n \<le> VAD_SAMPLES" using n by simp
      have t: "take (Suc n) (ab[n := ucast sample]) = take n ab @ [ucast sample]"
        using n Cons.prems(1) by (simp add: take_Suc_conv_app_nth)
      from Cons.IH [OF l sn r] True n t show ?thesis
        by (auto simp: Suc_diff_le take_Cons')
    qed
  qed
qed

lemma read_samples_frame:
  assumes "length ab = VAD_SAMPLES" and "read_samples queue ab 0 = (ab', n', rest)"
  shows "n' = length (frame_of queue) \<and> length ab' = VAD_SAMPLES \<and> take n' ab' = frame_of queue"
  using read_samples_closed [OF assms(1) _ assms(2)] by (auto simp: frame_of_def)

lemma conclusive_not_empty: "conclusive queue \<Longrightarrow> queue \<noteq> []"
  by (auto simp: conclusive_def frame_of_def VAD_SAMPLES_def)

subsection \<open>The statistics in closed form\<close>

lemma sum_squares_nonneg: "0 \<le> sum_squares xs"
  unfolding sum_squares_def by (rule sum_list_nonneg) auto

lemma vad_decision_take: "vad_decision buf n = vad_decision (take n buf) n"
  by (simp add: vad_decision_def vad_rms_def vad_variance_def vad_mean_def)

lemma vad_rms_eq:
  assumes "take n buf = xs"
  shows "vad_rms buf n = sqrt (real_of_int (sum_squares xs) / real n)"
  using assms by (simp add: vad_rms_def fold_plus_real sum_squares_def of_int_sum_list)

lemma vad_mean_eq:
  assumes "take n buf = xs"
  shows "vad_mean buf n = real_of_int (sum_samples xs) / real n"
  using assms by (simp add: vad_mean_def fold_plus_real sum_samples_def of_int_sum_list)

lemma vad_variance_eq:
  assumes "take n buf = xs" "length xs = n" "0 < n"
  shows "vad_variance buf n
     = (real n * real_of_int (sum_squares xs)
          - real_of_int (sum_samples xs) * real_of_int (sum_samples xs))
        / (real n * real n)"
proof -
  let ?m = "vad_mean buf n"
  have m: "?m = real_of_int (sum_samples xs) / real n"
    by (rule vad_mean_eq [OF assms(1)])
  have "vad_variance buf n
      = sum_list (map (\<lambda>a. (real_of_int (sint a) - ?m) * (real_of_int (sint a) - ?m)) xs) / real n"
    using assms(1) by (simp add: vad_variance_def Let_def fold_sq_dev)
  also have "\<dots> = (real_of_int (sum_squares xs) - 2 * ?m * real_of_int (sum_samples xs)
                    + real n * ?m * ?m) / real n"
    using assms(2) by (simp add: sum_sq_dev sum_squares_def sum_samples_def of_int_sum_list)
  also have "\<dots> = (real n * real_of_int (sum_squares xs)
                      - real_of_int (sum_samples xs) * real_of_int (sum_samples xs))
                    / (real n * real n)"
    using assms(3) unfolding m by (simp add: field_simps)
  finally show ?thesis .
qed

lemma sqrt_gt_50: "0 \<le> x \<Longrightarrow> (sqrt x > 50) = (x > 2500)"
proof -
  have "sqrt 2500 = 50" by (rule real_sqrt_unique) simp_all
  then show ?thesis by (metis real_sqrt_less_iff)
qed





text \<open>The decision, in integer arithmetic over the sums.\<close>

lemma vad_decision_int:
  assumes "take n buf = xs" "length xs = n" "0 < n"
  shows "vad_decision buf n =
     (2500 * int n < sum_squares xs
      \<and> 5000 * (int n * int n) < int n * sum_squares xs - sum_samples xs * sum_samples xs
      \<and> int n * sum_squares xs - sum_samples xs * sum_samples xs < 100000 * (int n * int n))"
proof -
  let ?S2 = "real_of_int (sum_squares xs)" and ?S1 = "real_of_int (sum_samples xs)"
  let ?D = "int n * sum_squares xs - sum_samples xs * sum_samples xs"
  have n: "0 < real n" using assms(3) by simp
  have nn: "0 < real n * real n" using n by simp
  have rms: "(vad_rms buf n > RMS_THRESHOLD) = (2500 * int n < sum_squares xs)"
  proof -
    have "0 \<le> ?S2 / real n" using sum_squares_nonneg [of xs] by simp
    then have "(sqrt (?S2 / real n) > 50) = (?S2 / real n > 2500)" by (rule sqrt_gt_50)
    also have "\<dots> = (2500 * real n < ?S2)" using n by (simp add: field_simps)
    also have "\<dots> = (real_of_int (2500 * int n) < ?S2)" by simp
    also have "\<dots> = (2500 * int n < sum_squares xs)" by (simp only: of_int_less_iff)
    finally show ?thesis by (simp add: vad_rms_eq [OF assms(1)] RMS_THRESHOLD_def)
  qed
  have var: "vad_variance buf n = real_of_int ?D / (real n * real n)"
    by (simp add: vad_variance_eq [OF assms])
  have lo: "(vad_variance buf n > VARIANCE_MIN) = (5000 * (int n * int n) < ?D)"
  proof -
    have "(vad_variance buf n > VARIANCE_MIN) = (5000 * (real n * real n) < real_of_int ?D)"
      unfolding var VARIANCE_MIN_def using nn by (simp add: field_simps)
    also have "\<dots> = (real_of_int (5000 * (int n * int n)) < real_of_int ?D)" by simp
    also have "\<dots> = (5000 * (int n * int n) < ?D)" by (simp only: of_int_less_iff)
    finally show ?thesis .
  qed
  have hi: "(vad_variance buf n < VARIANCE_MAX) = (?D < 100000 * (int n * int n))"
  proof -
    have "(vad_variance buf n < VARIANCE_MAX) = (real_of_int ?D < 100000 * (real n * real n))"
      unfolding var VARIANCE_MAX_def using nn by (simp add: field_simps)
    also have "\<dots> = (real_of_int ?D < real_of_int (100000 * (int n * int n)))" by simp
    also have "\<dots> = (?D < 100000 * (int n * int n))" by (simp only: of_int_less_iff)
    finally show ?thesis .
  qed
  show ?thesis
    by (simp add: vad_decision_def Let_def rms lo hi)
qed

lemma raw_detection_int:
  assumes "frame_of queue \<noteq> []"
  shows "raw_detection queue =
     (let xs = frame_of queue; n = int (length xs); d = n * sum_squares xs - sum_samples xs * sum_samples xs
      in 2500 * n < sum_squares xs \<and> 5000 * (n * n) < d \<and> d < 100000 * (n * n))"
  unfolding raw_detection_def Let_def
  using assms by (intro vad_decision_int) simp_all





subsection \<open>One call of the detectors\<close>

lemma performVAD_inconclusive:
  assumes "length (audioBuffer7 s) = VAD_SAMPLES" and "\<not> conclusive queue"
  shows "\<exists>buf rest. performVAD now queue s = (False, s\<lparr> audioBuffer7 := buf \<rparr>, rest)
           \<and> length buf = VAD_SAMPLES"
proof (cases "queue = []")
  case True
  then have "performVAD now queue s = (False, s\<lparr> audioBuffer7 := audioBuffer7 s \<rparr>, queue)"
    by (simp add: performVAD_def)
  with assms(1) show ?thesis by blast
next
  case False
  obtain buf n rest where r: "read_samples queue (audioBuffer7 s) 0 = (buf, n, rest)"
    by (cases "read_samples queue (audioBuffer7 s) 0") auto
  note f = read_samples_frame [OF assms(1) r]
  have "n < VAD_SAMPLES div 2"
    using f [THEN conjunct1] assms(2) by (simp add: conclusive_def)
  moreover have "length buf = VAD_SAMPLES"
    by (rule f [THEN conjunct2, THEN conjunct1])
  ultimately show ?thesis using False r by (auto simp: performVAD_def)
qed


lemma performAdvancedVAD_inconclusive:
  assumes "length (audioBuffer s) = VAD_SAMPLES" and "\<not> conclusive queue"
  shows "\<exists>buf rest. performAdvancedVAD queue s = (False, s\<lparr> audioBuffer := buf \<rparr>, rest)
           \<and> length buf = VAD_SAMPLES"
proof (cases "queue = []")
  case True
  then have "performAdvancedVAD queue s = (False, s\<lparr> audioBuffer := audioBuffer s \<rparr>, queue)"
    by (simp add: performAdvancedVAD_def)
  with assms(1) show ?thesis by blast
next
  case False
  obtain buf n rest where r: "read_samples queue (audioBuffer s) 0 = (buf, n, rest)"
    by (cases "read_samples queue (audioBuffer s) 0") auto
  note f = read_samples_frame [OF assms(1) r]
  have "n < VAD_SAMPLES div 2"
    using f [THEN conjunct1] assms(2) by (simp add: conclusive_def)
  moreover have "length buf = VAD_SAMPLES"
    by (rule f [THEN conjunct2, THEN conjunct1])
  ultimately show ?thesis using False r by (auto simp: performAdvancedVAD_def)
qed

lemma performAdvancedVAD_conclusive:
  assumes "length (audioBuffer s) = VAD_SAMPLES" and "conclusive queue"
  shows "\<exists>buf rest. performAdvancedVAD queue s
            = (fst (debounce (raw_detection queue) (s\<lparr> audioBuffer := buf \<rparr>)),
               snd (debounce (raw_detection queue) (s\<lparr> audioBuffer := buf \<rparr>)), rest)
           \<and> length buf = VAD_SAMPLES"
proof -
  obtain buf n rest where r: "read_samples queue (audioBuffer s) 0 = (buf, n, rest)"
    by (cases "read_samples queue (audioBuffer s) 0") auto
  note f = read_samples_frame [OF assms(1) r]
  have n: "\<not> n < VAD_SAMPLES div 2" "n = length (frame_of queue)" "take n buf = frame_of queue"
    using f [THEN conjunct1] assms(2) f [THEN conjunct2, THEN conjunct2]
    by (simp_all add: conclusive_def)
  have l: "length buf = VAD_SAMPLES"
    by (rule f [THEN conjunct2, THEN conjunct1])
  have "vad_decision buf n = raw_detection queue"
    using n(2,3) vad_decision_take [of buf n] by (simp add: raw_detection_def)
  with conclusive_not_empty [OF assms(2)] r n(1)
  have "performAdvancedVAD queue s
            = (fst (debounce (raw_detection queue) (s\<lparr> audioBuffer := buf \<rparr>)),
               snd (debounce (raw_detection queue) (s\<lparr> audioBuffer := buf \<rparr>)), rest)"
    by (simp add: performAdvancedVAD_def Let_def case_prod_beta)
  with l show ?thesis by blast
qed

lemma debounce_audioBuffer: "audioBuffer (snd (debounce d s)) = audioBuffer s"
  by (simp add: debounce_def Let_def)

lemma performAdvancedVAD_True:
  assumes "performAdvancedVAD queue s = (True, s', rest)"
  shows "consecutiveDetections s' = 0"
  using assms
  by (auto simp: performAdvancedVAD_def debounce_def Let_def split: if_splits prod.splits)

lemma performAdvancedVAD_counter:
  assumes "performAdvancedVAD queue s = (result, s', rest)"
    and "consecutiveDetections s \<le> int c" and "c \<le> 2"
  shows "consecutiveDetections s' \<le> int (Suc c) \<and> consecutiveDetections s' \<le> 2
       \<and> (result \<longrightarrow> c = 2)"
  using assms
  by (auto simp: performAdvancedVAD_def debounce_def Let_def VAD_TRIGGER_COUNT_def
      split: if_splits prod.splits)

subsection \<open>A sequence of calls\<close>

lemma length_vad_run: "length (fst (vad_run frames s)) = length frames"
  by (induction frames arbitrary: s) (simp_all add: case_prod_beta)

lemma vad_run_append:
  "vad_run (xs @ ys) s =
     (fst (vad_run xs s) @ fst (vad_run ys (snd (vad_run xs s))), snd (vad_run ys (snd (vad_run xs s))))"
  by (induction xs arbitrary: s) (simp_all add: case_prod_beta)

lemma vad_run_gap:
  assumes "consecutiveDetections s \<le> int c" and "c \<le> 2"
    and "j < length frames" and "fst (vad_run frames s) ! j"
  shows "2 \<le> j + c"
  using assms
proof (induction frames arbitrary: s c j)
  case Nil
  then show ?case by simp
next
  case (Cons queue frames)
  obtain result s1 rest where p: "performAdvancedVAD queue s = (result, s1, rest)"
    by (cases "performAdvancedVAD queue s") auto
  note step = performAdvancedVAD_counter [OF p Cons.prems(1,2)]
  show ?case
  proof (cases j)
    case 0
    with Cons.prems(4) p have result by (simp split: prod.splits)
    with step 0 show ?thesis by simp
  next
    case (Suc k)
    with Cons.prems(3,4) p have k: "k < length frames" "fst (vad_run frames s1) ! k"
      by (simp_all split: prod.splits)
    show ?thesis
    proof (cases "c = 2")
      case True
      then show ?thesis by simp
    next
      case False
      then have c: "Suc c \<le> 2" using Cons.prems(2) by simp
      from step have "consecutiveDetections s1 \<le> int (Suc c)" by simp
      from Cons.IH [OF this c k] Suc show ?thesis by simp
    qed
  qed
qed

lemma vad_run_last_True:
  assumes "fst (vad_run (frames @ [queue]) s) ! length frames"
  shows "consecutiveDetections (snd (vad_run (frames @ [queue]) s)) = 0"
proof -
  let ?s1 = "snd (vad_run frames s)"
  obtain result s2 rest where p: "performAdvancedVAD queue ?s1 = (result, s2, rest)"
    by (cases "performAdvancedVAD queue ?s1") auto
  from assms p have result
    by (simp add: vad_run_append nth_append length_vad_run)
  with p performAdvancedVAD_True [of queue ?s1 s2 rest] show ?thesis
    by (simp add: vad_run_append)
qed

lemma vad_run_two_triggers:
  assumes "i < j" and "j < length frames"
    and "fst (vad_run frames s) ! i" and "fst (vad_run frames s) ! j"
  shows "i + 3 \<le> j"
proof -
  let ?xs = "take i frames @ [frames ! i]" and ?ys = "drop (Suc i) frames"
  have i: "i < length frames" using assms(1,2) by simp
  have split: "frames = ?xs @ ?ys"
    using i by (simp add: take_Suc_conv_app_nth [symmetric])
  let ?s1 = "snd (vad_run ?xs s)"
  have lx: "length (fst (vad_run ?xs s)) = Suc i"
    using i by (simp add: length_vad_run)
  have outs: "fst (vad_run frames s) = fst (vad_run ?xs s) @ fst (vad_run ?ys ?s1)"
    by (subst split) (simp add: vad_run_append case_prod_beta)
  have "fst (vad_run ?xs s) ! length (take i frames)"
    using assms(3) i lx unfolding outs by (simp add: nth_append)
  then have z: "consecutiveDetections ?s1 = 0"
    by (rule vad_run_last_True)
  have "fst (vad_run ?ys ?s1) ! (j - Suc i)"
    using assms(1,4) lx unfolding outs by (simp add: nth_append)
  moreover have "j - Suc i < length ?ys" using assms(1,2) by simp
  ultimately have "2 \<le> (j - Suc i) + 0"
    using z by (intro vad_run_gap [of ?s1 0 "j - Suc i" ?ys]) simp_all
  with assms(1) show ?thesis by simp
qed

subsection \<open>The first result that is true\<close>

lemma length_debounce_outputs [simp]: "length (debounce_outputs c rs) = length rs"
  by (induction rs arbitrary: c) auto

lemma three_run_shift:
  "three_run (pre @ False # rs) j =
     (three_run pre j \<or> (length pre < j \<and> three_run rs (j - length pre - 1)))"
  unfolding three_run_def
  apply (cases "j < length pre")
   apply (auto simp: nth_append nth_Cons')[1]
  apply (cases "j = length pre")
   apply (auto simp: nth_append nth_Cons')[1]
  apply (cases "j = length pre + 1")
   apply (auto simp: nth_append nth_Cons')[1]
  apply (cases "j = length pre + 2")
   apply (auto simp: nth_append nth_Cons')[1]
  apply (auto simp: nth_append nth_Cons')
  done

lemma three_run_short: "length pre \<le> 2 \<Longrightarrow> \<not> three_run pre j"
  by (auto simp: three_run_def)

lemma first_true_Cons_0: "first_true (b # outs) 0 = b"
  by (simp add: first_true_def)

lemma first_true_Cons_Suc: "first_true (b # outs) (Suc k) = (\<not> b \<and> first_true outs k)"
  by (auto simp: first_true_def All_less_Suc2)

lemma first_run_False:
  assumes "c \<le> 2"
  shows "first_run (replicate c True @ False # rs) (Suc (i + c)) = first_run rs i"
proof -
  let ?pre = "replicate c True"
  have pre: "\<not> three_run ?pre j" for j using assms by (intro three_run_short) simp
  have a: "three_run (?pre @ False # rs) j = (c < j \<and> three_run rs (j - c - 1))" for j
    by (simp add: three_run_shift pre)
  have "(\<forall>j<Suc (i + c). \<not> (c < j \<and> three_run rs (j - c - 1))) = (\<forall>k<i. \<not> three_run rs k)"
  proof
    assume h: "\<forall>j<Suc (i + c). \<not> (c < j \<and> three_run rs (j - c - 1))"
    show "\<forall>k<i. \<not> three_run rs k"
    proof (intro allI impI)
      fix k assume "k < i"
      then have "Suc (k + c) < Suc (i + c)" by simp
      with h have "\<not> (c < Suc (k + c) \<and> three_run rs (Suc (k + c) - c - 1))" by blast
      then show "\<not> three_run rs k" by simp
    qed
  next
    assume h: "\<forall>k<i. \<not> three_run rs k"
    show "\<forall>j<Suc (i + c). \<not> (c < j \<and> three_run rs (j - c - 1))"
    proof (intro allI impI notI)
      fix j assume "j < Suc (i + c)" and "c < j \<and> three_run rs (j - c - 1)"
      then have "j - c - 1 < i" and "three_run rs (j - c - 1)" by auto
      with h show False by blast
    qed
  qed
  then show ?thesis by (simp add: first_run_def a)
qed

lemma first_run_at_two:
  "first_run (True # True # True # rs) (i + 2) = (i = 0)"
proof (cases i)
  case 0
  then show ?thesis by (auto simp: first_run_def three_run_def)
next
  case (Suc k)
  have "three_run (True # True # True # rs) 2" by (simp add: three_run_def)
  moreover have "2 < i + 2" using Suc by simp
  ultimately have "\<not> first_run (True # True # True # rs) (i + 2)"
    unfolding first_run_def by blast
  then show ?thesis using Suc by simp
qed

lemma first_true_debounce_outputs:
  "c \<le> 2 \<Longrightarrow> first_true (debounce_outputs c rs) i = first_run (replicate c True @ rs) (i + c)"
proof (induction rs arbitrary: c i)
  case Nil
  then show ?case by (simp add: first_true_def first_run_def three_run_def)
next
  case (Cons r rs)
  show ?case
  proof (cases r)
    case False
    show ?thesis
    proof (cases i)
      case 0
      have "\<not> three_run (replicate c True @ False # rs) c"
        using Cons.prems by (simp add: three_run_shift three_run_short)
      with False 0 show ?thesis by (simp add: first_true_Cons_0 first_run_def)
    next
      case (Suc k)
      with False Cons.IH [of 0 k] first_run_False [OF Cons.prems, of rs k]
      show ?thesis by (simp add: first_true_Cons_Suc)
    qed
  next
    case True
    show ?thesis
    proof (cases "c = 2")
      case c2: True
      have e: "replicate c True @ True # rs = True # True # True # rs"
        using c2 by (simp add: numeral_2_eq_2)
      have "first_true (debounce_outputs c (r # rs)) i = (i = 0)"
        using True c2 by (cases i) (simp_all add: first_true_Cons_0 first_true_Cons_Suc)
      moreover have "first_run (replicate c True @ r # rs) (i + c) = (i = 0)"
      proof -
        have "replicate c True @ r # rs = True # True # True # rs" using e True by simp
        then show ?thesis using c2 first_run_at_two [of rs i] by simp
      qed
      ultimately show ?thesis by simp
    next
      case c: False
      then have c1: "Suc c \<le> 2" using Cons.prems by simp
      have e: "replicate c True @ True # rs = replicate (Suc c) True @ rs"
        by (simp add: replicate_app_Cons_same)
      show ?thesis
      proof (cases i)
        case 0
        have "\<not> three_run (replicate (Suc c) True @ rs) c"
          using c Cons.prems by (auto simp: three_run_def)
        with True c 0 Cons.prems show ?thesis
          by (simp add: e first_true_Cons_0 first_run_def del: replicate_Suc)
      next
        case (Suc k)
        with True c Cons.prems Cons.IH [OF c1, of k] show ?thesis
          by (simp add: e first_true_Cons_Suc del: replicate_Suc)
      qed
    qed
  qed
qed

text \<open>On conclusive frames the calls return what the debounce step returns.\<close>

lemma vad_run_debounce_outputs:
  assumes "\<forall>queue \<in> set frames. conclusive queue"
    and "length (audioBuffer s) = VAD_SAMPLES"
    and "consecutiveDetections s = int c" and "c \<le> 2"
  shows "fst (vad_run frames s) = debounce_outputs c (map raw_detection frames)"
  using assms
proof (induction frames arbitrary: s c)
  case Nil
  then show ?case by simp
next
  case (Cons queue frames)
  have cq: "conclusive queue" using Cons.prems(1) by simp
  obtain buf rest where p: "performAdvancedVAD queue s
            = (fst (debounce (raw_detection queue) (s\<lparr> audioBuffer := buf \<rparr>)),
               snd (debounce (raw_detection queue) (s\<lparr> audioBuffer := buf \<rparr>)), rest)"
    and l: "length buf = VAD_SAMPLES"
    using performAdvancedVAD_conclusive [OF Cons.prems(2) cq] by blast
  let ?d = "debounce (raw_detection queue) (s\<lparr> audioBuffer := buf \<rparr>)"
  have l1: "length (audioBuffer (snd ?d)) = VAD_SAMPLES"
    using l by (simp add: debounce_audioBuffer)
  have rest: "\<forall>queue \<in> set frames. conclusive queue" using Cons.prems(1) by simp
  show ?case
  proof (cases "raw_detection queue")
    case False
    then have d: "fst ?d = False" "consecutiveDetections (snd ?d) = int 0"
      by (simp_all add: debounce_def)
    from Cons.IH [OF rest l1 d(2)] False d(1) p show ?thesis by (simp add: case_prod_beta)
  next
    case True
    show ?thesis
    proof (cases "c = 2")
      case c2: True
      with True Cons.prems(3) have d: "fst ?d = True" "consecutiveDetections (snd ?d) = int 0"
        by (simp_all add: debounce_def Let_def VAD_TRIGGER_COUNT_def)
      from Cons.IH [OF rest l1 d(2)] True c2 d(1) p show ?thesis by (simp add: case_prod_beta)
    next
      case c: False
      then have c1: "Suc c \<le> 2" using Cons.prems(4) by simp
      from True c Cons.prems(3,4)
      have d: "fst ?d = False" "consecutiveDetections (snd ?d) = int (Suc c)"
        by (simp_all add: debounce_def Let_def VAD_TRIGGER_COUNT_def)
      from Cons.IH [OF rest l1 d(2) c1] True c Cons.prems(4) d(1) p show ?thesis
        by (simp add: case_prod_beta)
    qed
  qed
qed

subsection \<open>The example frames\<close>

lemma conclusive_loud: "conclusive loud" by code_simp
lemma conclusive_quiet: "conclusive quiet" by code_simp
lemma conclusive_offset_only: "conclusive offset_only" by code_simp
lemma not_conclusive_sentinels_only: "\<not> conclusive sentinels_only" by code_simp

lemma raw_detection_loud: "raw_detection loud"
proof -
  have a: "frame_of loud \<noteq> []" by code_simp
  have b: "(let xs = frame_of loud; n = int (length xs);
        d = n * sum_squares xs - sum_samples xs * sum_samples xs
      in 2500 * n < sum_squares xs \<and> 5000 * (n * n) < d \<and> d < 100000 * (n * n))"
    by code_simp
  show ?thesis
    unfolding raw_detection_int [OF a] by (rule b)
qed

lemma raw_detection_quiet: "\<not> raw_detection quiet"
proof -
  have a: "frame_of quiet \<noteq> []" by code_simp
  have b: "\<not> (let xs = frame_of quiet; n = int (length xs);
        d = n * sum_squares xs - sum_samples xs * sum_samples xs
      in 2500 * n < sum_squares xs \<and> 5000 * (n * n) < d \<and> d < 100000 * (n * n))"
    by code_simp
  show ?thesis
    unfolding raw_detection_int [OF a] by (rule b)
qed










section \<open>Properties of audio_recorder.cpp\<close>

subsection \<open>Little-endian fields\<close>

lemma bytes_of_nat32:
  fixes n :: nat
  assumes "n < 4294967296"
  shows "n mod 256 + 256 * (n div 256 mod 256) + 65536 * (n div 65536 mod 256)
      + 16777216 * (n div 16777216 mod 256) = n"
proof -
  have a: "n mod 65536 = 256 * (n div 256 mod 256) + n mod 256"
    using mod_mult2_eq [of n 256 256] by simp
  have b: "n mod 16777216 = 65536 * (n div 65536 mod 256) + n mod 65536"
    using mod_mult2_eq [of n 65536 256] by simp
  have c: "n mod 4294967296 = 16777216 * (n div 16777216 mod 256) + n mod 16777216"
    using mod_mult2_eq [of n 16777216 256] by simp
  from a b c assms show ?thesis by simp
qed

lemma bytes_of_nat16:
  fixes n :: nat
  assumes "n < 65536"
  shows "n mod 256 + 256 * (n div 256 mod 256) = n"
  using mod_mult2_eq [of n 256 256] assms by simp

lemma rd32_le32: "rd32 (le32 w @ rest) 0 = w"
proof -
  have lt: "unat w < 4294967296" using unsigned_less [of w, where ?'a = nat] by simp
  have b0: "unat ((le32 w @ rest) ! 0) = unat w mod 256"
    by (simp add: le32_def unsigned_ucast_eq take_bit_eq_mod)
  have b1: "unat ((le32 w @ rest) ! (0 + 1)) = unat w div 256 mod 256"
    by (simp add: le32_def unsigned_ucast_eq take_bit_eq_mod unat_drop_bit_eq drop_bit_eq_div
        unat_div)
  have b2: "unat ((le32 w @ rest) ! (0 + 2)) = unat w div 65536 mod 256"
    by (simp add: le32_def unsigned_ucast_eq take_bit_eq_mod unat_drop_bit_eq drop_bit_eq_div
        unat_div)
  have b3: "unat ((le32 w @ rest) ! (0 + 3)) = unat w div 16777216 mod 256"
    by (simp add: le32_def unsigned_ucast_eq take_bit_eq_mod unat_drop_bit_eq drop_bit_eq_div
        unat_div)
  show ?thesis
    unfolding rd32_def b0 b1 b2 b3 bytes_of_nat32 [OF lt] by simp
qed

lemma rd16_le16: "rd16 (le16 w @ rest) 0 = w"
proof -
  have lt: "unat w < 65536" using unsigned_less [of w, where ?'a = nat] by simp
  have b0: "unat ((le16 w @ rest) ! 0) = unat w mod 256"
    by (simp add: le16_def unsigned_ucast_eq take_bit_eq_mod)
  have b1: "unat ((le16 w @ rest) ! (0 + 1)) = unat w div 256 mod 256"
    by (simp add: le16_def unsigned_ucast_eq take_bit_eq_mod unat_drop_bit_eq drop_bit_eq_div
        unat_div)
  show ?thesis
    unfolding rd16_def b0 b1 bytes_of_nat16 [OF lt] by simp
qed

lemma rd32_skip: "rd32 (pre @ bs) (length pre) = rd32 bs 0"
  by (simp add: rd32_def nth_append numeral_2_eq_2 numeral_3_eq_3)

lemma rd16_skip: "rd16 (pre @ bs) (length pre) = rd16 bs 0"
  by (simp add: rd16_def nth_append)

lemma rd32_at: "length pre = off \<Longrightarrow> rd32 (pre @ le32 w @ rest) off = w"
  using rd32_skip [of pre "le32 w @ rest"] by (simp add: rd32_le32)

lemma rd16_at: "length pre = off \<Longrightarrow> rd16 (pre @ le16 w @ rest) off = w"
  using rd16_skip [of pre "le16 w @ rest"] by (simp add: rd16_le16)

lemma length_le32 [simp]: "length (le32 w) = 4"
  by (simp add: le32_def)

lemma length_le16 [simp]: "length (le16 w) = 2"
  by (simp add: le16_def)

lemma length_tag_bytes [simp]: "length (tag_bytes t) = length t"
  by (simp add: tag_bytes_def)

lemma length_sample_bytes [simp]: "length (sample_bytes samples) = 2 * length samples"
  by (induction samples) (simp_all add: sample_bytes_def)

lemma sample_bytes_append: "sample_bytes (xs @ ys) = sample_bytes xs @ sample_bytes ys"
  by (simp add: sample_bytes_def)

lemma length_header_bytes: "length (header_bytes (createWAVHeader dataSize)) = 44"
  by (simp add: header_bytes_def createWAVHeader_def)

text \<open>The fields of a container that starts with the bytes of a header.\<close>

lemma header_fields:
  fixes h :: wav_header_t and data :: "byte list"
  assumes "length (chunkID h) = 4" "length (format h) = 4" "length (subchunk1ID h) = 4"
    and "length (subchunk2ID h) = 4"
  defines "c \<equiv> header_bytes h @ data"
  shows "rd32 c 4 = chunkSize h" "rd32 c 16 = subchunk1Size h" "rd16 c 20 = audioFormat h"
    "rd16 c 22 = numChannels h" "rd32 c 24 = sampleRate h" "rd32 c 28 = byteRate h"
    "rd16 c 32 = blockAlign h" "rd16 c 34 = bitsPerSample h" "rd32 c 40 = subchunk2Size h"
proof -
  let ?t1 = "tag_bytes (chunkID h)" and ?t2 = "tag_bytes (format h)"
  let ?t3 = "tag_bytes (subchunk1ID h)" and ?t4 = "tag_bytes (subchunk2ID h)"
  let ?f1 = "le32 (chunkSize h)" and ?f2 = "le32 (subchunk1Size h)"
  let ?f3 = "le16 (audioFormat h)" and ?f4 = "le16 (numChannels h)"
  let ?f5 = "le32 (sampleRate h)" and ?f6 = "le32 (byteRate h)"
  let ?f7 = "le16 (blockAlign h)" and ?f8 = "le16 (bitsPerSample h)"
  let ?f9 = "le32 (subchunk2Size h)"
  have c: "c = ?t1 @ ?f1 @ ?t2 @ ?t3 @ ?f2 @ ?f3 @ ?f4 @ ?f5 @ ?f6 @ ?f7 @ ?f8 @ ?t4 @ ?f9 @ data"
    by (simp add: c_def header_bytes_def)
  show "rd32 c 4 = chunkSize h"
    unfolding c using rd32_at [of ?t1 4] assms(1) by simp
  show "rd32 c 16 = subchunk1Size h"
    unfolding c using rd32_at [of "?t1 @ ?f1 @ ?t2 @ ?t3" 16] assms(1-4) by simp
  show "rd16 c 20 = audioFormat h"
    unfolding c using rd16_at [of "?t1 @ ?f1 @ ?t2 @ ?t3 @ ?f2" 20] assms(1-4) by simp
  show "rd16 c 22 = numChannels h"
    unfolding c using rd16_at [of "?t1 @ ?f1 @ ?t2 @ ?t3 @ ?f2 @ ?f3" 22] assms(1-4) by simp
  show "rd32 c 24 = sampleRate h"
    unfolding c using rd32_at [of "?t1 @ ?f1 @ ?t2 @ ?t3 @ ?f2 @ ?f3 @ ?f4" 24] assms(1-4)
    by simp
  show "rd32 c 28 = byteRate h"
    unfolding c using rd32_at [of "?t1 @ ?f1 @ ?t2 @ ?t3 @ ?f2 @ ?f3 @ ?f4 @ ?f5" 28] assms(1-4)
    by simp
  show "rd16 c 32 = blockAlign h"
    unfolding c
    using rd16_at [of "?t1 @ ?f1 @ ?t2 @ ?t3 @ ?f2 @ ?f3 @ ?f4 @ ?f5 @ ?f6" 32] assms(1-4)
    by simp
  show "rd16 c 34 = bitsPerSample h"
    unfolding c
    using rd16_at [of "?t1 @ ?f1 @ ?t2 @ ?t3 @ ?f2 @ ?f3 @ ?f4 @ ?f5 @ ?f6 @ ?f7" 34] assms(1-4)
    by simp
  show "rd32 c 40 = subchunk2Size h"
    unfolding c
    using rd32_at [of "?t1 @ ?f1 @ ?t2 @ ?t3 @ ?f2 @ ?f3 @ ?f4 @ ?f5 @ ?f6 @ ?f7 @ ?f8 @ ?t4" 40]
      assms(1-4)
    by simp
qed

subsection \<open>A session\<close>

text \<open>The samples \<open>continueRecording\<close> takes from the reads of a session.\<close>

lemma file_write_append:
  assumes "position f = length (content f)" and "written = length bytes"
  shows "file_write bytes written f
     = f\<lparr> content := content f @ bytes, position := length (content f) + length bytes \<rparr>"
  using assms by (simp add: file_write_def Let_def)

lemma continue_all_appends:
  assumes "recording s" and "position (recordingFile s) = length (content (recordingFile s))"
  shows "continue_all frames s
     = (replicate (length frames) True,
        s\<lparr> recordingFile := (recordingFile s)
              \<lparr> content := content (recordingFile s)
                             @ sample_bytes (concat (map (take BUFFER_SIZE) frames)),
                position := length (content (recordingFile s))
                             + 2 * length (concat (map (take BUFFER_SIZE) frames)) \<rparr>,
            bytesWritten := bytesWritten s
                             + word_of_nat (2 * length (concat (map (take BUFFER_SIZE) frames))) \<rparr>)"
  using assms
proof (induction frames arbitrary: s)
  case Nil
  have "(recordingFile s)\<lparr> content := content (recordingFile s) @ sample_bytes [],
      position := length (content (recordingFile s)) \<rparr> = recordingFile s"
    using Nil(2) by (cases "recordingFile s") (simp add: sample_bytes_def)
  then show ?case by simp
next
  case (Cons samples frames)
  let ?xs = "take BUFFER_SIZE samples"
  let ?e = "\<lparr> read_ok = True, read_samples_r = samples, data_written = 2 * length ?xs \<rparr>"
  let ?f1 = "(recordingFile s)\<lparr> content := content (recordingFile s) @ sample_bytes ?xs,
      position := length (content (recordingFile s)) + 2 * length ?xs \<rparr>"
  let ?s1 = "s\<lparr> recordingFile := ?f1, bytesWritten := bytesWritten s + word_of_nat (2 * length ?xs) \<rparr>"
  have w: "file_write (sample_bytes ?xs) (2 * length ?xs) (recordingFile s) = ?f1"
    using file_write_append [OF Cons.prems(2), of "2 * length ?xs" "sample_bytes ?xs"] by simp
  have step: "continueRecording ?e s = (True, ?s1)"
  proof (cases "?xs = []")
    case True
    have "?f1 = recordingFile s"
      unfolding True using Cons.prems(2) by (cases "recordingFile s") (simp add: sample_bytes_def)
    then have "?s1 = s" unfolding True by simp
    moreover have "continueRecording ?e s = (True, s)"
      using Cons.prems(1) True
      by (simp add: continueRecording_def Let_def del: take_eq_Nil take_eq_Nil2)
    ultimately show ?thesis by simp
  next
    case False
    then show ?thesis using Cons.prems w by (simp add: continueRecording_def Let_def)
  qed
  have r1: "recording ?s1" using Cons.prems(1) by simp
  have p1: "position (recordingFile ?s1) = length (content (recordingFile ?s1))" by simp
  show ?case
    using step Cons.IH [OF r1 p1]
    by (simp add: sample_bytes_append algebra_simps)
qed

lemma session_result:
  fixes frames :: "int16 list list"
  assumes "\<not> recording s"
  defines "samples \<equiv> concat (map (take BUFFER_SIZE) frames)"
  shows "session now frames s
     = (replicate (length frames + 2) True,
        s\<lparr> recordingFile :=
              \<lparr> content = header_bytes (createWAVHeader (word_of_nat (2 * length samples)))
                           @ sample_bytes samples,
                position = 44, is_open = False \<rparr>,
            recording := False,
            bytesWritten := word_of_nat (2 * length samples),
            recordingStartTime := now \<rparr>)"
proof -
  let ?h0 = "header_bytes (createWAVHeader 0)"
  let ?f1 = "\<lparr> content = ?h0, position = 44, is_open = True \<rparr>"
  let ?s1 = "s\<lparr> recordingFile := ?f1, recording := True, bytesWritten := 0,
      recordingStartTime := now \<rparr>"
  have l0: "length ?h0 = 44" by (rule length_header_bytes)
  have start: "startRecording \<lparr> open_ok = True, start_written = 44, i2s_start_ok = True,
      start_now = now \<rparr> s = (True, ?s1)"
    using assms(1) l0 by (simp add: startRecording_def Let_def file_write_def)
  have r1: "recording ?s1" by simp
  have p1: "position (recordingFile ?s1) = length (content (recordingFile ?s1))"
    using l0 by simp
  note cont = continue_all_appends [OF r1 p1, of frames]
  let ?n = "2 * length samples"
  let ?f2 = "\<lparr> content = ?h0 @ sample_bytes samples, position = 44 + ?n, is_open = True \<rparr>"
  let ?s2 = "s\<lparr> recordingFile := ?f2, recording := True, bytesWritten := word_of_nat ?n,
      recordingStartTime := now \<rparr>"
  have cont2: "continue_all frames ?s1 = (replicate (length frames) True, ?s2)"
    unfolding cont using l0 by (simp add: samples_def)
  let ?h = "header_bytes (createWAVHeader (word_of_nat ?n))"
  have lh: "length ?h = 44" by (rule length_header_bytes)
  have stop: "stopRecording \<lparr> stop_written = 44 \<rparr> ?s2
      = (True, s\<lparr> recordingFile := \<lparr> content = ?h @ sample_bytes samples, position = 44,
                       is_open = False \<rparr>,
                 recording := False, bytesWritten := word_of_nat ?n,
                 recordingStartTime := now \<rparr>)"
    using lh l0 by (simp add: stopRecording_def Let_def file_write_def)
  have "session now frames s
      = (True # replicate (length frames) True @ [True],
         s\<lparr> recordingFile := \<lparr> content = ?h @ sample_bytes samples, position = 44,
                       is_open = False \<rparr>,
            recording := False, bytesWritten := word_of_nat ?n,
            recordingStartTime := now \<rparr>)"
    by (simp only: session_def start cont2 stop prod.case)
  then show ?thesis
    by (simp add: replicate_append_same)
qed


section \<open>Properties of performUpload\<close>















section \<open>Claims about voice_detection.cpp\<close>

text \<open>
  Claim C10.  \<open>calculateRMS\<close> returns exactly \<open>0.0\<close> for every buffer and every
  \<open>count \<le> 0\<close>: the guard returns before the loop, the division by \<open>count\<close> and the square
  root, so the result is a value and never the fault of a division by zero or of a read
  outside the buffer.
\<close>

theorem C10_calculateRMS_degenerate:
  "count \<le> 0 \<Longrightarrow> calculateRMS samples count = Inr 0"
  by (simp add: calculateRMS_def)

theorem C10_calculateRMS_degenerate_witness:
  "calculateRMS [] 0 = Inr 0 \<and> calculateRMS [3, 4] (- 2) = Inr 0"
proof -
  have a: "(0::int) \<le> 0" and b: "(- 2::int) \<le> 0" by simp_all
  show ?thesis
    by (rule conjI)
      (rule C10_calculateRMS_degenerate [OF a], rule C10_calculateRMS_degenerate [OF b])
qed

text \<open>
  Claim C8.  In every state the module can reach, \<open>noiseFloor\<close> is at least
  \<open>VAD_NOISE_FLOOR\<close>; from such a state the adaptive update, a calibration and an
  initialization return (no fault) and leave a floor of at least \<open>VAD_NOISE_FLOOR\<close>; and
  the update leaves the floor as it is when the current level is not below 1.5 times the
  floor.
\<close>

theorem C8_noiseFloor_at_least_minimum:
  assumes "vd_reachable s"
  shows "VAD_NOISE_FLOOR \<le> noiseFloor s
       \<and> VAD_NOISE_FLOOR \<le> noiseFloor (updateNoiseFloor now s)
       \<and> (\<not> currentAudioLevel s < noiseFloor s * 1.5
            \<longrightarrow> noiseFloor (updateNoiseFloor now s) = noiseFloor s)
       \<and> (\<exists>s'. calibrateVAD reads s = Inr s' \<and> VAD_NOISE_FLOOR \<le> noiseFloor s')
       \<and> (\<exists>s'. initializeVAD now reads s = Inr s' \<and> VAD_NOISE_FLOOR \<le> noiseFloor s')
       \<and> (\<exists>b s'. detectVoiceActivity now r s = Inr (b, s') \<and> VAD_NOISE_FLOOR \<le> noiseFloor s')"
proof -
  have fl: "VAD_NOISE_FLOOR \<le> noiseFloor s"
    by (rule vd_reachable_floor [OF assms])
  have len: "length (vadBuffer s) = VAD_SAMPLE_WINDOW"
    by (rule vd_reachable_length [OF assms])
  have upd: "VAD_NOISE_FLOOR \<le> noiseFloor (updateNoiseFloor now s)"
    by (rule updateNoiseFloor_floor [OF fl])
  have keep: "\<not> currentAudioLevel s < noiseFloor s * 1.5
      \<longrightarrow> noiseFloor (updateNoiseFloor now s) = noiseFloor s"
    using updateNoiseFloor_not_within [OF fl] by blast
  have cal: "\<exists>s'. calibrateVAD reads s = Inr s' \<and> VAD_NOISE_FLOOR \<le> noiseFloor s'"
    using calibrateVAD_total [OF len, of reads] calibrateVAD_floor [OF fl] by blast
  have ini: "\<exists>s'. initializeVAD now reads s = Inr s' \<and> VAD_NOISE_FLOOR \<le> noiseFloor s'"
    using initializeVAD_total [OF len, of now reads] initializeVAD_floor by blast
  have det: "\<exists>b s'. detectVoiceActivity now r s = Inr (b, s') \<and> VAD_NOISE_FLOOR \<le> noiseFloor s'"
    using detectVoiceActivity_total [OF len, of now r] detectVoiceActivity_floor [OF fl] by blast
  from fl upd keep cal ini det show ?thesis by blast
qed

theorem C8_noiseFloor_at_least_minimum_witness:
  "vd_reachable (updateNoiseFloor 500 vd_statics)
   \<and> VAD_NOISE_FLOOR \<le> noiseFloor (updateNoiseFloor 500 vd_statics)
   \<and> VAD_NOISE_FLOOR \<le> noiseFloor (updateNoiseFloor 700 (updateNoiseFloor 500 vd_statics))"
proof -
  have r: "vd_reachable (updateNoiseFloor 500 vd_statics)"
    by (rule vd_update [OF vd_boot])
  from C8_noiseFloor_at_least_minimum [OF r, of 700] r show ?thesis by blast
qed

section \<open>Claims about the debounced detector of the end-to-end sketch\<close>

text \<open>
  Claim C1.  Let \<open>performAdvancedVAD\<close> be called once per frame, every frame giving at
  least \<open>VAD_SAMPLES / 2\<close> valid samples, from a counter of 0.  Then a position is the
  first at which a call returns true exactly when it is the first position at which the
  last \<open>VAD_TRIGGER_COUNT = 3\<close> raw detections were all positive; a negative raw
  detection returns false and sets the counter to 0; and the raw detections
  \<open>[T, T, F, T, T, T]\<close> give true exactly once, at the sixth frame.
\<close>

theorem C1_debounce_first_trigger:
  assumes "\<forall>queue \<in> set frames. conclusive queue"
    and "length (audioBuffer s) = VAD_SAMPLES"
    and "consecutiveDetections s = 0"
  shows "(\<forall>i. first_true (fst (vad_run frames s)) i = first_run (map raw_detection frames) i)
       \<and> (\<forall>s0. \<not> fst (debounce False s0) \<and> consecutiveDetections (snd (debounce False s0)) = 0)
       \<and> (map raw_detection frames = [True, True, False, True, True, True]
            \<longrightarrow> fst (vad_run frames s) = [False, False, False, False, False, True])"
proof -
  have c: "consecutiveDetections s = int 0" using assms(3) by simp
  have outs: "fst (vad_run frames s) = debounce_outputs 0 (map raw_detection frames)"
    by (rule vad_run_debounce_outputs [OF assms(1,2) c]) simp
  have first: "\<forall>i. first_true (fst (vad_run frames s)) i = first_run (map raw_detection frames) i"
    unfolding outs using first_true_debounce_outputs [of 0 "map raw_detection frames"] by simp
  have reset: "\<forall>s0. \<not> fst (debounce False s0) \<and> consecutiveDetections (snd (debounce False s0)) = 0"
    by (simp add: debounce_def)
  have example: "map raw_detection frames = [True, True, False, True, True, True]
      \<longrightarrow> fst (vad_run frames s) = [False, False, False, False, False, True]"
    unfolding outs by simp
  from first reset example show ?thesis by blast
qed

theorem C1_debounce_first_trigger_witness:
  "map raw_detection [loud, loud, quiet, loud, loud, loud] = [True, True, False, True, True, True]
   \<and> fst (vad_run [loud, loud, quiet, loud, loud, loud] vad10_statics)
       = [False, False, False, False, False, True]
   \<and> first_true (fst (vad_run [loud, loud, quiet, loud, loud, loud] vad10_statics)) 5"
proof -
  let ?frames = "[loud, loud, quiet, loud, loud, loud]"
  have a: "\<forall>queue \<in> set ?frames. conclusive queue"
    by (simp add: conclusive_loud conclusive_quiet)
  have b: "length (audioBuffer vad10_statics) = VAD_SAMPLES"
    by (simp add: vad10_statics_def)
  have c: "consecutiveDetections vad10_statics = 0"
    by (simp add: vad10_statics_def)
  have rs: "map raw_detection ?frames = [True, True, False, True, True, True]"
    by (simp add: raw_detection_loud raw_detection_quiet)
  note t = C1_debounce_first_trigger [OF a b c]
  have outs: "fst (vad_run ?frames vad10_statics) = [False, False, False, False, False, True]"
    using t rs by blast
  have "first_run (map raw_detection ?frames) 5"
    unfolding rs by (simp add: first_run_def three_run_def nth_Cons' All_less_Suc
        eval_nat_numeral)
  then have "first_true (fst (vad_run ?frames vad10_statics)) 5"
    using t by blast
  with rs outs show ?thesis by blast
qed

text \<open>
  Claim C9.  Whenever \<open>performAdvancedVAD\<close> returns true, it leaves the counter
  \<open>consecutiveDetections\<close> at 0; so in any sequence of calls, from any state, two calls
  that return true are at least three calls apart: the second needs three positive raw
  detections of its own.
\<close>

theorem C9_counter_zero_after_trigger:
  "(performAdvancedVAD queue s = (True, s', rest) \<longrightarrow> consecutiveDetections s' = 0)
   \<and> (i < j \<and> j < length frames \<and> fst (vad_run frames s0) ! i \<and> fst (vad_run frames s0) ! j
        \<longrightarrow> i + 3 \<le> j)"
  using performAdvancedVAD_True [of queue s s' rest] vad_run_two_triggers [of i j frames s0]
  by blast

theorem C9_counter_zero_after_trigger_witness:
  "fst (vad_run [loud, loud, loud, loud, loud, loud] vad10_statics)
     = [False, False, True, False, False, True]
   \<and> consecutiveDetections (snd (vad_run [loud, loud, loud] vad10_statics)) = 0
   \<and> (2::nat) + 3 \<le> 5"
proof -
  let ?frames = "[loud, loud, loud, loud, loud, loud]"
  have a: "\<forall>queue \<in> set ?frames. conclusive queue"
    by (simp add: conclusive_loud)
  have b: "length (audioBuffer vad10_statics) = VAD_SAMPLES"
    by (simp add: vad10_statics_def)
  have c: "consecutiveDetections vad10_statics = int 0"
    by (simp add: vad10_statics_def)
  have outs: "fst (vad_run ?frames vad10_statics) = [False, False, True, False, False, True]"
    using vad_run_debounce_outputs [OF a b c] by (simp add: raw_detection_loud)
  have a3: "\<forall>queue \<in> set [loud, loud, loud]. conclusive queue"
    by (simp add: conclusive_loud)
  have outs3: "fst (vad_run [loud, loud, loud] vad10_statics) = [False, False, True]"
    using vad_run_debounce_outputs [OF a3 b c] by (simp add: raw_detection_loud)
  obtain s2 where s2: "snd (vad_run [loud, loud] vad10_statics) = s2" by simp
  obtain r s3 rest where p: "performAdvancedVAD loud s2 = (r, s3, rest)"
    by (cases "performAdvancedVAD loud s2") auto
  have run3: "vad_run [loud, loud, loud] vad10_statics
      = (fst (vad_run [loud, loud] vad10_statics) @ [r], s3)"
    using vad_run_append [of "[loud, loud]" "[loud]" vad10_statics] s2 p by simp
  with outs3 have r by (simp add: length_vad_run)
  with p have "performAdvancedVAD loud s2 = (True, s3, rest)" by simp
  with C9_counter_zero_after_trigger [where queue = loud and s = s2 and s' = s3 and rest = rest
      and i = 2 and j = 5 and frames = ?frames and ?s0.0 = vad10_statics]
  have z: "consecutiveDetections s3 = 0" and gap: "(2::nat) + 3 \<le> 5"
    using outs by simp_all
  from z run3 have "consecutiveDetections (snd (vad_run [loud, loud, loud] vad10_statics)) = 0"
    by simp
  with outs gap show ?thesis by blast
qed


section \<open>Claims about a single frame\<close>

text \<open>
  Claim C5, as stated: a frame with fewer than half of its samples valid, in particular
  one of sentinel values only, gives \<open>false\<close> and leaves the detector's state, the noise
  floor included, as it was.  The detector that keeps a noise floor,
  \<open>detectVoiceActivity\<close>, does not filter sentinel values: after a calibration to a floor
  of 150, a read of the eight sentinel values \<open>0, -1, 0, 0, 0, 1, 0, 0\<close> gives \<open>false\<close>
  but stores the level 0.5 and moves the running average and the noise floor.
\<close>

theorem C5_sentinel_frame_counterexample:
  "vd_reachable calibrated
   \<and> noiseFloor calibrated = 150
   \<and> detectVoiceActivity 1000 \<lparr> esp_ok = True, delivered = sentinel_frame \<rparr> calibrated
       = Inr (False, calibrated\<lparr> vadBuffer := sentinel_frame @ replicate 248 0,
            currentAudioLevel := 0.5, runningAverage := 0.025, noiseFloor := 148.505,
            lastNoiseUpdate := 1000, sampleCount := 1 \<rparr>)"
  using vd_reachable_calibrated detect_sentinel_frame by (simp add: calibrated_def)

text \<open>
  Claim C5, amended.  In \<open>performVAD\<close> and \<open>performAdvancedVAD\<close> a call that collects
  fewer than \<open>VAD_SAMPLES / 2 = 256\<close> valid samples, in particular one that finds
  sentinel values only, returns \<open>false\<close> and changes nothing but the scratch buffer
  \<open>audioBuffer\<close> (and the queue it has read): \<open>lastDebug\<close>, \<open>consecutiveDetections\<close> and
  \<open>vadTriggerCount\<close> keep their values.  \<open>detectVoiceActivity\<close> returns \<open>false\<close> on a
  read of sentinel values only; its state is not said to be unchanged.
\<close>

theorem C5_inconclusive_frame:
  "(length (audioBuffer7 s7) = VAD_SAMPLES \<and> \<not> conclusive queue \<longrightarrow>
      (\<exists>buf rest. performVAD now queue s7 = (False, s7\<lparr> audioBuffer7 := buf \<rparr>, rest)))
   \<and> (length (audioBuffer s10) = VAD_SAMPLES \<and> \<not> conclusive queue \<longrightarrow>
      (\<exists>buf rest. performAdvancedVAD queue s10 = (False, s10\<lparr> audioBuffer := buf \<rparr>, rest)))
   \<and> ((\<forall>sample \<in> set queue. sample = 0 \<or> sample = - 1 \<or> sample = 1) \<longrightarrow> \<not> conclusive queue)
   \<and> (vd_reachable s \<and> (\<forall>x \<in> set (delivered r). x = 0 \<or> x = 1 \<or> x = - 1) \<longrightarrow>
      (\<exists>s'. detectVoiceActivity now r s = Inr (False, s')))"
proof -
  have a: "length (audioBuffer7 s7) = VAD_SAMPLES \<and> \<not> conclusive queue \<longrightarrow>
      (\<exists>buf rest. performVAD now queue s7 = (False, s7\<lparr> audioBuffer7 := buf \<rparr>, rest))"
    using performVAD_inconclusive [of s7 queue now] by blast
  have b: "length (audioBuffer s10) = VAD_SAMPLES \<and> \<not> conclusive queue \<longrightarrow>
      (\<exists>buf rest. performAdvancedVAD queue s10 = (False, s10\<lparr> audioBuffer := buf \<rparr>, rest))"
    using performAdvancedVAD_inconclusive [of s10 queue] by blast
  have c: "(\<forall>sample \<in> set queue. sample = 0 \<or> sample = - 1 \<or> sample = 1) \<longrightarrow> \<not> conclusive queue"
  proof
    assume "\<forall>sample \<in> set queue. sample = 0 \<or> sample = - 1 \<or> sample = 1"
    then have "filter valid_sample queue = []"
      by (auto simp: filter_empty_conv valid_sample_def)
    then show "\<not> conclusive queue"
      by (simp add: conclusive_def frame_of_def VAD_SAMPLES_def)
  qed
  have d: "vd_reachable s \<and> (\<forall>x \<in> set (delivered r). x = 0 \<or> x = 1 \<or> x = - 1) \<longrightarrow>
      (\<exists>s'. detectVoiceActivity now r s = Inr (False, s'))"
    using detectVoiceActivity_sentinels [of s r now] by blast
  from a b c d show ?thesis by blast
qed

theorem C5_inconclusive_frame_witness:
  "\<not> conclusive sentinels_only
   \<and> fst (performAdvancedVAD sentinels_only (vad10_statics\<lparr> consecutiveDetections := 2 \<rparr>)) = False
   \<and> consecutiveDetections
       (fst (snd (performAdvancedVAD sentinels_only (vad10_statics\<lparr> consecutiveDetections := 2 \<rparr>)))) = 2
   \<and> fst (performVAD 5000 sentinels_only \<lparr> audioBuffer7 = replicate VAD_SAMPLES 0, lastDebug = 0 \<rparr>) = False
   \<and> lastDebug (fst (snd (performVAD 5000 sentinels_only
        \<lparr> audioBuffer7 = replicate VAD_SAMPLES 0, lastDebug = 0 \<rparr>))) = 0"
proof -
  let ?s10 = "vad10_statics\<lparr> consecutiveDetections := 2 \<rparr>"
  let ?s7 = "\<lparr> audioBuffer7 = replicate VAD_SAMPLES 0, lastDebug = 0 \<rparr>"
  have l7: "length (audioBuffer7 ?s7) = VAD_SAMPLES" by simp
  have l10: "length (audioBuffer ?s10) = VAD_SAMPLES" by (simp add: vad10_statics_def)
  note t = C5_inconclusive_frame [where ?s7.0 = ?s7 and ?s10.0 = ?s10 and queue = sentinels_only
      and now = 5000 and s = calibrated and r = "\<lparr> esp_ok = True, delivered = sentinel_frame \<rparr>"]
  from t l7 not_conclusive_sentinels_only
  obtain buf7 rest7 where p7: "performVAD 5000 sentinels_only ?s7
      = (False, ?s7\<lparr> audioBuffer7 := buf7 \<rparr>, rest7)"
    by blast
  from t l10 not_conclusive_sentinels_only
  obtain buf10 rest10 where p10: "performAdvancedVAD sentinels_only ?s10
      = (False, ?s10\<lparr> audioBuffer := buf10 \<rparr>, rest10)"
    by blast
  show ?thesis
    by (simp add: p7 p10 not_conclusive_sentinels_only)
qed





section \<open>Claims about the recording session\<close>

text \<open>
  Claim C3, as stated: after \<open>start\<close>, appends totalling \<open>N\<close> valid (non-sentinel) samples
  and \<open>finish\<close>, the data size field is \<open>N * 2\<close>.  \<open>continueRecording\<close> writes the bytes
  \<open>i2s_read\<close> delivered as they are and counts them all: a session with the one read
  \<open>0, 5, 7\<close> holds two valid samples and ends with a data size of 6, not 4.
\<close>

theorem C3_header_round_trip_counterexample:
  "fst (session 0 [[0, 5, 7]] rec_statics) = [True, True, True]
   \<and> valid_count [[0, 5, 7]] = 2
   \<and> rd32 (content (recordingFile (snd (session 0 [[0, 5, 7]] rec_statics)))) 40 = 6"
proof -
  have nr: "\<not> recording rec_statics" by (simp add: rec_statics_def)
  have tk: "concat (map (take BUFFER_SIZE) [[0, 5, 7 :: int16]]) = [0, 5, 7]"
    by (simp add: BUFFER_SIZE_def)
  note r = session_result [OF nr, of 0 "[[0, 5, 7]]", unfolded tk]
  have f: "rd32 (header_bytes (createWAVHeader 6) @ sample_bytes [0, 5, 7]) 40 = 6"
    using header_fields(9) [of "createWAVHeader 6" "sample_bytes [0, 5, 7]"]
    by (simp add: createWAVHeader_def)
  have v: "valid_count [[0, 5, 7]] = 2" by (simp add: valid_count_def)
  have oks: "fst (session 0 [[0, 5, 7]] rec_statics) = [True, True, True]"
    unfolding r by (simp add: numeral_2_eq_2)
  have "content (recordingFile (snd (session 0 [[0, 5, 7]] rec_statics)))
      = header_bytes (createWAVHeader 6) @ sample_bytes [0, 5, 7]"
    unfolding r by simp
  with f oks v show ?thesis by simp
qed

text \<open>
  Claim C3, amended.  A session \<open>startRecording\<close>, \<open>continueRecording\<close> for reads
  totalling \<open>N\<close> samples of any value (sentinel values included), \<open>stopRecording\<close>, in
  which every driver call succeeds, leaves a closed container of \<open>44 + 2 * N\<close> bytes: the
  44 bytes of the header followed by the samples.  Its data size field is \<open>2 * N\<close> as a
  32-bit number (\<open>2 * N\<close> itself below \<open>2^32\<close>), its chunk size field is 36 plus the data
  size, subchunk1Size is 16, audioFormat 1, the channel count \<open>CHANNELS\<close>, the sample
  rate \<open>SAMPLE_RATE\<close>, byteRate \<open>SAMPLE_RATE * CHANNELS * 2\<close>, blockAlign \<open>CHANNELS * 2\<close>
  and bitsPerSample 16.  \<open>startRecording\<close> had written the header of data size 0 in the
  same place.
\<close>

theorem C3_header_round_trip:
  assumes "\<not> recording s"
  shows "let samples = concat (map (take BUFFER_SIZE) frames);
             N = length samples;
             r = session now frames s;
             c = content (recordingFile (snd r))
         in fst r = replicate (length frames + 2) True
          \<and> c = header_bytes (createWAVHeader (word_of_nat (2 * N))) @ sample_bytes samples
          \<and> length c = 44 + 2 * N
          \<and> rd32 c 40 = word_of_nat (2 * N)
          \<and> rd32 c 4 = 36 + rd32 c 40
          \<and> rd32 c 16 = 16 \<and> rd16 c 20 = 1
          \<and> rd16 c 22 = word_of_int CHANNELS
          \<and> rd32 c 24 = word_of_int SAMPLE_RATE
          \<and> rd32 c 28 = word_of_int (SAMPLE_RATE * CHANNELS * 2)
          \<and> rd16 c 32 = word_of_int (CHANNELS * 2)
          \<and> rd16 c 34 = 16
          \<and> (2 * N < 2 ^ 32 \<longrightarrow> unat (rd32 c 40) = 2 * N)
          \<and> (36 + 2 * N < 2 ^ 32 \<longrightarrow> unat (rd32 c 4) = 36 + 2 * N)
          \<and> \<not> is_open (recordingFile (snd r)) \<and> \<not> recording (snd r)
          \<and> content (recordingFile (snd (startRecording
                \<lparr> open_ok = True, start_written = 44, i2s_start_ok = True, start_now = now \<rparr> s)))
              = header_bytes (createWAVHeader 0)"
proof -
  define samples where "samples = concat (map (take BUFFER_SIZE) frames)"
  define N where "N = length samples"
  define h where "h = createWAVHeader (word_of_nat (2 * N))"
  define c where "c = header_bytes h @ sample_bytes samples"
  note r = session_result [OF assms, of now frames, folded samples_def, folded N_def,
      folded h_def, folded c_def]
  have tags: "length (chunkID h) = 4" "length (format h) = 4" "length (subchunk1ID h) = 4"
    "length (subchunk2ID h) = 4"
    by (simp_all add: h_def createWAVHeader_def)
  note f = header_fields [OF tags, of "sample_bytes samples", folded c_def]
  have len: "length c = 44 + 2 * N"
    by (simp add: c_def h_def length_header_bytes N_def)
  have fields: "rd32 c 40 = word_of_nat (2 * N)" "rd32 c 4 = 36 + rd32 c 40"
    "rd32 c 16 = 16" "rd16 c 20 = 1" "rd16 c 22 = word_of_int CHANNELS"
    "rd32 c 24 = word_of_int SAMPLE_RATE" "rd32 c 28 = word_of_int (SAMPLE_RATE * CHANNELS * 2)"
    "rd16 c 32 = word_of_int (CHANNELS * 2)" "rd16 c 34 = 16"
    unfolding f by (simp_all add: h_def createWAVHeader_def BITS_PER_SAMPLE_def)
  have u1: "2 * N < 2 ^ 32 \<longrightarrow> unat (rd32 c 40) = 2 * N"
  proof
    assume b: "2 * N < 2 ^ 32"
    have "unat (rd32 c 40) = (2 * N) mod 2 ^ 32"
      unfolding fields(1) by (simp only: unat_of_nat) simp
    then show "unat (rd32 c 40) = 2 * N"
      using b by simp
  qed
  have u2: "36 + 2 * N < 2 ^ 32 \<longrightarrow> unat (rd32 c 4) = 36 + 2 * N"
  proof
    assume b: "36 + 2 * N < 2 ^ 32"
    have "rd32 c 4 = word_of_nat (36 + 2 * N)"
      unfolding fields(2) fields(1) by simp
    then have "unat (rd32 c 4) = (36 + 2 * N) mod 2 ^ 32"
      by (simp only: unat_of_nat) simp
    then show "unat (rd32 c 4) = 36 + 2 * N"
      using b by simp
  qed
  have st: "content (recordingFile (snd (startRecording
        \<lparr> open_ok = True, start_written = 44, i2s_start_ok = True, start_now = now \<rparr> s)))
      = header_bytes (createWAVHeader 0)"
    using assms length_header_bytes [of 0]
    by (simp add: startRecording_def Let_def file_write_def)
  have oks: "fst (session now frames s) = replicate (length frames + 2) True"
    and c_eq: "content (recordingFile (snd (session now frames s))) = c"
    and closed: "\<not> is_open (recordingFile (snd (session now frames s)))"
      "\<not> recording (snd (session now frames s))"
    unfolding r by simp_all
  have c2: "c = header_bytes (createWAVHeader (word_of_nat (2 * N))) @ sample_bytes samples"
    by (simp only: c_def h_def)
  show ?thesis
    unfolding Let_def samples_def [symmetric] N_def [symmetric] c_eq
    by (intro conjI; fact)
qed

theorem C3_header_round_trip_witness:
  "\<not> recording rec_statics
   \<and> fst (session 0 [[5, 7], [9]] rec_statics) = [True, True, True, True]
   \<and> length (content (recordingFile (snd (session 0 [[5, 7], [9]] rec_statics)))) = 50
   \<and> rd32 (content (recordingFile (snd (session 0 [[5, 7], [9]] rec_statics)))) 40 = 6
   \<and> rd32 (content (recordingFile (snd (session 0 [[5, 7], [9]] rec_statics)))) 4 = 42"
proof -
  let ?c = "content (recordingFile (snd (session 0 [[5, 7], [9]] rec_statics)))"
  have nr: "\<not> recording rec_statics" by (simp add: rec_statics_def)
  have tk: "concat (map (take BUFFER_SIZE) [[5, 7], [9 :: int16]]) = [5, 7, 9]"
    by (simp add: BUFFER_SIZE_def)
  note t = C3_header_round_trip [OF nr, of "[[5, 7], [9]]" 0, unfolded Let_def tk]
  have n3: "length [5, 7, 9 :: int16] = 3" by simp
  have "fst (session 0 [[5, 7], [9]] rec_statics)
      = replicate (length [[5, 7], [9 :: int16]] + 2) True"
    by (rule t [THEN conjunct1])
  then have oks: "fst (session 0 [[5, 7], [9]] rec_statics) = [True, True, True, True]"
    by (simp add: numeral_2_eq_2)
  have "length ?c = 44 + 2 * length [5, 7, 9 :: int16]"
    by (rule t [THEN conjunct2, THEN conjunct2, THEN conjunct1])
  then have len: "length ?c = 50"
    unfolding n3 by simp
  have "rd32 ?c 40 = word_of_nat (2 * length [5, 7, 9 :: int16])"
    by (rule t [THEN conjunct2, THEN conjunct2, THEN conjunct2, THEN conjunct1])
  then have d: "rd32 ?c 40 = 6"
    unfolding n3 by simp
  have "rd32 ?c 4 = 36 + rd32 ?c 40"
    by (rule t [THEN conjunct2, THEN conjunct2, THEN conjunct2, THEN conjunct2, THEN conjunct1])
  then have ch: "rd32 ?c 4 = 42"
    unfolding d by simp
  from nr oks len d ch show ?thesis by (intro conjI)
qed


section \<open>Claim C2: the upload retry ceiling\<close>





end
